theory Spec2Isabelle
  imports Main "HOL-Library.Word"
begin

unbundle bit_operations_syntax

section \<open>Bytes, outcomes and the external primitives\<close>

text \<open>
  A Go \<open>[]byte\<close> is a list of 8-bit words. A nil slice and an empty slice are both the
  empty list: \<open>bytes.Equal\<close>, \<open>h.Write\<close> and the protobuf getters treat them alike.
\<close>

type_synonym bytes = "8 word list"

text \<open>
  A Go call either returns or panics (a nil pointer dereference is a run-time panic).
\<close>

datatype 'a outcome = Panics | Returns 'a

text \<open>
  The error values. \<open>ErrInvalidBlockHash\<close>, \<open>ErrNilBlock\<close>, \<open>ErrInvalidTxHash\<close> and
  \<open>ErrNilTx\<close> are declared in core/block.go; \<open>ErrInvalidSig\<close> and \<open>ErrInvalidValidator\<close>
  are used there. The others carry the names of the specification's error kinds:
  \<open>MalformedSignature\<close> is the error of \<open>newSignature\<close> on key bytes that are no
  public key.
\<close>

datatype error =
    ErrInvalidBlockHash | ErrNilBlock | ErrInvalidTxHash | ErrNilTx
  | ErrInvalidSig | ErrInvalidValidator
  | NilObject | MalformedSignature | QCValidationFailed
  | InsufficientSignatures | DuplicateSigner
  | StateNotFound | MerkleVerifyFailed | StorageIOError

text \<open>
  The cryptographic primitives are parameters: the sha3-256 digest of
  golang.org/x/crypto/sha3, whether key bytes are accepted by \<open>NewPublicKey\<close>, and the
  signature check \<open>verify public_key message signature_value\<close>.
\<close>

record crypto =
  sha3_256 :: "bytes \<Rightarrow> bytes"
  key_ok :: "bytes \<Rightarrow> bool"
  sig_verify :: "bytes \<Rightarrow> bytes \<Rightarrow> bytes \<Rightarrow> bool"

section \<open>Wire types (core\_pb) and their wrappers\<close>

record pb_Signature =
  sig_PubKey :: bytes
  sig_Value :: bytes

record pb_QuorumCert =
  qc_BlockHash :: bytes
  qc_Signatures :: "pb_Signature option list"

record pb_Block =
  blk_Height :: "64 word"
  blk_Hash :: bytes
  blk_ParentHash :: bytes
  blk_Proposer :: bytes
  blk_Signature :: bytes
  blk_QuorumCert :: "pb_QuorumCert option"
  blk_ExecHeight :: "64 word"
  blk_StateRoot :: bytes
  blk_Transactions :: "bytes list"

record pb_Transaction =
  tx_Nonce :: "64 word"
  tx_Sender :: bytes
  tx_CodeAddr :: bytes
  tx_Input :: bytes
  tx_Hash :: bytes
  tx_Signature :: bytes

text \<open>A public key that \<open>NewPublicKey\<close> accepted, as its key bytes.\<close>

type_synonym PublicKey = bytes

record Signature =
  sg_data :: pb_Signature
  sg_pubKey :: PublicKey

record QuorumCert =
  qcw_data :: "pb_QuorumCert option"

record Block =
  data :: "pb_Block option"
  proposer :: "PublicKey option"
  quorumCert :: "QuorumCert option"

record Transaction =
  txdata :: "pb_Transaction option"
  sender :: "PublicKey option"

text \<open>The validator store interface: \<open>ValidatorCount()\<close> and \<open>IsValidator(pubKey)\<close>.\<close>

record ValidatorStore =
  ValidatorCount :: nat
  IsValidator :: "PublicKey \<Rightarrow> bool"

section \<open>Canonical hashing: Block.Sum and Transaction.Sum\<close>

text \<open>
  Modelled from the spec: \<open>uint64ToBytes\<close> (its file is not among the sources) is the
  8-byte big-endian encoding of a uint64, most significant byte first.
\<close>

definition uint64ToBytes :: "64 word \<Rightarrow> bytes" where
  "uint64ToBytes v =
     [ucast (drop_bit 56 v), ucast (drop_bit 48 v), ucast (drop_bit 40 v),
      ucast (drop_bit 32 v), ucast (drop_bit 24 v), ucast (drop_bit 16 v),
      ucast (drop_bit 8 v), ucast v]"

text \<open>
  The running hash \<open>h\<close> of \<open>sha3.New256()\<close> is the list of the bytes written so far;
  \<open>h.Write(p)\<close> appends, \<open>h.Sum(nil)\<close> is the digest of everything written.
  \<open>binary.Write(h, binary.BigEndian, n)\<close> for an int64 \<open>n\<close> writes the eight bytes of
  its two's complement, most significant first.
\<close>

definition hash_Write :: "bytes \<Rightarrow> bytes \<Rightarrow> bytes" where
  "hash_Write h p = h @ p"

definition binary_Write_BigEndian :: "bytes \<Rightarrow> 64 word \<Rightarrow> bytes" where
  "binary_Write_BigEndian h n = hash_Write h (uint64ToBytes n)"

fun write_all :: "bytes \<Rightarrow> bytes list \<Rightarrow> bytes" where
  "write_all h [] = h"
| "write_all h (txHash # rest) = write_all (hash_Write h txHash) rest"

text \<open>
  \<open>Block.Sum\<close> (core/block.go). Reading \<open>blk.data.Height\<close> through a nil \<open>data\<close>
  panics.
\<close>

definition Block_Sum :: "(bytes \<Rightarrow> bytes) \<Rightarrow> Block \<Rightarrow> bytes outcome" where
  "Block_Sum sha blk =
     (case data blk of
        None \<Rightarrow> Panics
      | Some d \<Rightarrow>
          let h = [];
              h = hash_Write h (uint64ToBytes (blk_Height d));
              h = hash_Write h (blk_ParentHash d);
              h = hash_Write h (blk_Proposer d);
              h = (case blk_QuorumCert d of
                     None \<Rightarrow> h
                   | Some qc \<Rightarrow> hash_Write h (qc_BlockHash qc));
              h = hash_Write h (uint64ToBytes (blk_ExecHeight d));
              h = hash_Write h (blk_StateRoot d);
              h = write_all h (blk_Transactions d)
          in Returns (sha h))"

text \<open>\<open>Transaction.Sum\<close> (core/block.go, second file).\<close>

definition Transaction_Sum :: "(bytes \<Rightarrow> bytes) \<Rightarrow> Transaction \<Rightarrow> bytes outcome" where
  "Transaction_Sum sha tx =
     (case txdata tx of
        None \<Rightarrow> Panics
      | Some d \<Rightarrow>
          let h = [];
              h = binary_Write_BigEndian h (tx_Nonce d);
              h = hash_Write h (tx_Sender d);
              h = hash_Write h (tx_CodeAddr d);
              h = hash_Write h (tx_Input d)
          in Returns (sha h))"

text \<open>
  The big-endian value of a byte string, and the block hash of an embedded quorum
  certificate (nothing when the block has none), for stating what the digests cover.
\<close>

definition be_value :: "bytes \<Rightarrow> nat" where
  "be_value bs = foldl (\<lambda>acc b. acc * 256 + unat b) 0 bs"

definition qc_block_hash :: "pb_Block \<Rightarrow> bytes" where
  "qc_block_hash d = (case blk_QuorumCert d of None \<Rightarrow> [] | Some qc \<Rightarrow> qc_BlockHash qc)"

section \<open>Signatures and quorum certificates\<close>

text \<open>
  Modelled from the spec: \<open>newSignature\<close> and \<open>Signature.Verify\<close> (core/crypto.go is not
  among the sources). \<open>newSignature\<close> returns the pair (signature, error) of the Go
  function: the wrapper and no error when the key bytes form a public key, a nil
  wrapper and an error otherwise (nil data, or key bytes \<open>NewPublicKey\<close> refuses).
\<close>

definition newSignature :: "crypto \<Rightarrow> pb_Signature option \<Rightarrow> Signature option \<times> error option" where
  "newSignature c sigdata =
     (case sigdata of
        None \<Rightarrow> (None, Some NilObject)
      | Some d \<Rightarrow>
          if key_ok c (sig_PubKey d)
          then (Some \<lparr>sg_data = d, sg_pubKey = sig_PubKey d\<rparr>, None)
          else (None, Some MalformedSignature))"

definition Signature_Verify :: "crypto \<Rightarrow> Signature \<Rightarrow> bytes \<Rightarrow> bool" where
  "Signature_Verify c sg msg = sig_verify c (sg_pubKey sg) msg (sig_Value (sg_data sg))"

text \<open>
  Modelled from the spec: \<open>QuorumCert.Validate\<close> (core/quorumcert.go is not among the
  sources; its test is). The threshold is Q = N - floor((N - 1) / 3) for N validators.
  A certificate is refused when it is nil, when one of its signatures is nil or
  malformed, when it has fewer than Q signatures, when two signatures have the same
  signer key, when a signer is no validator, and when a signature does not verify over
  the certificate's block hash.
\<close>

definition MajorityCount :: "nat \<Rightarrow> nat" where
  "MajorityCount n = n - (n - 1) div 3"

fun newSigList :: "crypto \<Rightarrow> pb_Signature option list \<Rightarrow> Signature list option" where
  "newSigList c [] = Some []"
| "newSigList c (d # ds) =
     (case newSignature c d of
        (Some sg, None) \<Rightarrow>
          (case newSigList c ds of None \<Rightarrow> None | Some sgs \<Rightarrow> Some (sg # sgs))
      | _ \<Rightarrow> None)"

fun hasDuplicate :: "Signature list \<Rightarrow> bool" where
  "hasDuplicate [] = False"
| "hasDuplicate (sg # sgs) = (sg_pubKey sg \<in> sg_pubKey ` set sgs \<or> hasDuplicate sgs)"

fun hasInvalidValidator :: "ValidatorStore \<Rightarrow> Signature list \<Rightarrow> bool" where
  "hasInvalidValidator vs [] = False"
| "hasInvalidValidator vs (sg # sgs) =
     (if \<not> IsValidator vs (sg_pubKey sg) then True else hasInvalidValidator vs sgs)"

fun hasInvalidSig :: "crypto \<Rightarrow> bytes \<Rightarrow> Signature list \<Rightarrow> bool" where
  "hasInvalidSig c msg [] = False"
| "hasInvalidSig c msg (sg # sgs) =
     (if \<not> Signature_Verify c sg msg then True else hasInvalidSig c msg sgs)"

definition QuorumCert_Validate :: "crypto \<Rightarrow> ValidatorStore \<Rightarrow> QuorumCert option \<Rightarrow> error option" where
  "QuorumCert_Validate c vs qc =
     (case qc of
        None \<Rightarrow> Some NilObject
      | Some w \<Rightarrow>
          (case qcw_data w of
             None \<Rightarrow> Some NilObject
           | Some d \<Rightarrow>
               (case newSigList c (qc_Signatures d) of
                  None \<Rightarrow> Some QCValidationFailed
                | Some sigs \<Rightarrow>
                    if length sigs < MajorityCount (ValidatorCount vs)
                    then Some InsufficientSignatures
                    else if hasDuplicate sigs then Some DuplicateSigner
                    else if hasInvalidValidator vs sigs then Some ErrInvalidValidator
                    else if hasInvalidSig c (qc_BlockHash d) sigs then Some ErrInvalidSig
                    else None)))"

text \<open>
  Modelled from the spec: \<open>QuorumCert.Build\<close> takes the block hash of the first vote and
  the signatures of all votes. (The order of the signatures plays no part in validity.)
\<close>

record pb_Vote =
  vote_BlockHash :: bytes
  vote_Signature :: "pb_Signature option"

definition QuorumCert_Build :: "pb_Vote list \<Rightarrow> QuorumCert" where
  "QuorumCert_Build votes =
     \<lparr>qcw_data = Some \<lparr>qc_BlockHash = (case votes of [] \<Rightarrow> [] | v # _ \<Rightarrow> vote_BlockHash v),
                        qc_Signatures = map vote_Signature votes\<rparr>\<rparr>"

section \<open>Block.Validate and Transaction.Validate\<close>

text \<open>
  \<open>Block.Validate\<close> (core/block.go), statement by statement. \<open>sig.PublicKey()\<close> reads a
  field of \<open>sig\<close>; it is called before \<open>err\<close> is inspected, so a nil \<open>sig\<close> is a nil
  pointer dereference.
\<close>

definition Block_Validate :: "crypto \<Rightarrow> ValidatorStore \<Rightarrow> Block \<Rightarrow> error option outcome" where
  "Block_Validate c vs blk =
     (case data blk of
        None \<Rightarrow> Returns (Some ErrNilBlock)
      | Some d \<Rightarrow>
          (case QuorumCert_Validate c vs (quorumCert blk) of
             Some err \<Rightarrow> Returns (Some err)
           | None \<Rightarrow>
               if Block_Sum (sha3_256 c) blk \<noteq> Returns (blk_Hash d)
               then Returns (Some ErrInvalidBlockHash)
               else
                 (case newSignature c
                         (Some \<lparr>sig_PubKey = blk_Proposer d, sig_Value = blk_Signature d\<rparr>) of
                    (None, err) \<Rightarrow> Panics
                  | (Some sg, err) \<Rightarrow>
                      if \<not> IsValidator vs (sg_pubKey sg) then Returns (Some ErrInvalidValidator)
                      else
                        (case err of
                           Some e \<Rightarrow> Returns (Some e)
                         | None \<Rightarrow>
                             if \<not> Signature_Verify c sg (blk_Hash d)
                             then Returns (Some ErrInvalidSig)
                             else Returns None))))"


section \<open>The Merkle tree\<close>

text \<open>
  Modelled from the spec: the package merkle (tree, positions, nodes, the map-backed
  store) is not among the sources; its tests are, and give the names. A position is a
  pair (level, index); leaves are at level 0. Levels are natural numbers here: a level
  is a uint8 in the code, and stays below 256 for every leaf count below 2 ^ 255.
\<close>

type_synonym Position = "nat \<times> nat"

definition NewPosition :: "nat \<Rightarrow> nat \<Rightarrow> Position" where
  "NewPosition level index = (level, index)"

record Node =
  Position :: Position
  Data :: bytes

text \<open>
  The backing store: \<open>get_node\<close>, \<open>get_leaf_count\<close>, \<open>get_height\<close> read it and
  \<open>commit_update\<close> stores all nodes of an update result with its height and leaf
  count. \<open>NewMapStore\<close> is the empty store of the tests.
\<close>

record MapStore =
  nodes :: "Position \<rightharpoonup> bytes"
  leafCount :: nat
  height :: nat

definition NewMapStore :: MapStore where
  "NewMapStore = \<lparr>nodes = Map.empty, leafCount = 0, height = 0\<rparr>"

definition GetNode :: "MapStore \<Rightarrow> Position \<Rightarrow> bytes option" where
  "GetNode st p = nodes st p"

record UpdateResult =
  LeafCount :: nat
  Height :: nat
  Leaves :: "Node list"
  Branches :: "Node list"
  Root :: "Node option"

definition CommitUpdate :: "UpdateResult \<Rightarrow> MapStore \<Rightarrow> MapStore" where
  "CommitUpdate res st =
     \<lparr>nodes = foldl (\<lambda>m n. m(Position n \<mapsto> Data n)) (nodes st) (Leaves res @ Branches res),
      leafCount = LeafCount res,
      height = Height res\<rparr>"

text \<open>The tree: a branch factor, clamped to at least 2 by \<open>NewTree\<close>, and one hash.\<close>

record TreeOptions =
  BranchFactor :: "8 word"
  HashFunc :: "bytes \<Rightarrow> bytes"

record Tree =
  bfactor :: "8 word"
  hashFunc :: "bytes \<Rightarrow> bytes"

definition NewTree :: "TreeOptions \<Rightarrow> Tree" where
  "NewTree opts =
     \<lparr>bfactor = (if BranchFactor opts < 2 then 2 else BranchFactor opts),
      hashFunc = HashFunc opts\<rparr>"

definition bf :: "Tree \<Rightarrow> nat" where
  "bf t = unat (bfactor t)"

text \<open>
  The height is the least h with leaf_count <= B ^ h when leaf_count > 1, and 1
  otherwise. (The search stops at once for a branch factor below 2, which \<open>NewTree\<close>
  never makes.)
\<close>

function ceil_log :: "nat \<Rightarrow> nat \<Rightarrow> nat \<Rightarrow> nat" where
  "ceil_log b n h = (if b < 2 \<or> n \<le> b ^ h then h else ceil_log b n (Suc h))"
  by pat_completeness auto
termination
proof (relation "measure (\<lambda>(b, n, h). n - b ^ h)")
  show "wf (measure (\<lambda>(b, n, h). n - b ^ h))" by simp
next
  fix b n h :: nat
  assume "\<not> (b < 2 \<or> n \<le> b ^ h)"
  then have b: "2 \<le> b" and lt: "b ^ h < n" by simp_all
  have "b ^ h * 1 < b ^ h * b" using b by (intro mult_strict_left_mono) simp_all
  then have "b ^ h < b ^ Suc h" by (simp add: mult.commute)
  then have "n - b ^ Suc h < n - b ^ h" using lt by (rule diff_less_mono2)
  then show "((b, n, Suc h), (b, n, h)) \<in> measure (\<lambda>(b, n, h). n - b ^ h)"
    by simp
qed

declare ceil_log.simps [simp del]

definition tree_height :: "nat \<Rightarrow> nat \<Rightarrow> nat" where
  "tree_height b n = (if 1 < n then ceil_log b n 0 else 1)"

text \<open>
  One level of an update. The dirty nodes of a level are a list of (index, data), a
  later entry for the same index winning. A child is taken from the dirty nodes if it
  is there, else from the store; a missing child contributes no bytes. The parent of
  index i is \<open>i div B\<close>, and its data the hash of its B children's data, concatenated.
\<close>

type_synonym row = "(nat \<times> bytes) list"

definition lookup_last :: "row \<Rightarrow> nat \<Rightarrow> bytes option" where
  "lookup_last dirty i = map_of (rev dirty) i"

definition childData :: "MapStore \<Rightarrow> nat \<Rightarrow> row \<Rightarrow> nat \<Rightarrow> bytes" where
  "childData st L dirty i =
     (case lookup_last dirty i of
        Some d \<Rightarrow> d
      | None \<Rightarrow> (case GetNode st (L, i) of Some d \<Rightarrow> d | None \<Rightarrow> []))"

definition parentData :: "Tree \<Rightarrow> MapStore \<Rightarrow> nat \<Rightarrow> row \<Rightarrow> nat \<Rightarrow> bytes" where
  "parentData t st L dirty p =
     hashFunc t (concat (map (childData st L dirty) [p * bf t ..< p * bf t + bf t]))"

definition upperLevel :: "Tree \<Rightarrow> MapStore \<Rightarrow> nat \<Rightarrow> row \<Rightarrow> row" where
  "upperLevel t st L dirty =
     map (\<lambda>p. (p, parentData t st L dirty p)) (remdups (map (\<lambda>e. fst e div bf t) dirty))"

definition rowNodes :: "nat \<Rightarrow> row \<Rightarrow> Node list" where
  "rowNodes L dirty = map (\<lambda>e. \<lparr>Position = (L, fst e), Data = snd e\<rparr>) dirty"

text \<open>
  The update goes up level by level from the dirty nodes of level L, and stops at the
  level that has a single dirty node, of index 0, and is at or above the new height:
  that node is the root. It returns the branch nodes computed and the root.
\<close>

function updateLevels :: "Tree \<Rightarrow> MapStore \<Rightarrow> nat \<Rightarrow> nat \<Rightarrow> row \<Rightarrow> Node list \<times> Node option" where
  "updateLevels t st h L dirty =
     (if dirty = [] \<or> bf t < 2 then ([], None)
      else if length dirty = 1 \<and> fst (hd dirty) = 0 \<and> h \<le> L
      then ([], Some \<lparr>Position = (L, 0), Data = snd (hd dirty)\<rparr>)
      else
        (case updateLevels t st h (Suc L) (upperLevel t st L dirty) of
           (bs, r) \<Rightarrow> (rowNodes (Suc L) (upperLevel t st L dirty) @ bs, r)))"
  by pat_completeness auto

text \<open>The loop ends: the largest dirty index, the levels left below the height and the
  number of dirty nodes cannot all stay the same.\<close>

definition row_max :: "row \<Rightarrow> nat" where
  "row_max dirty = Max (insert 0 (fst ` set dirty))"

lemma row_max_ge: "e \<in> set dirty \<Longrightarrow> fst e \<le> row_max dirty"
  by (simp add: row_max_def)

lemma row_max_upper:
  assumes "2 \<le> bf t"
  shows "row_max (upperLevel t st L dirty) \<le> row_max dirty div bf t"
proof -
  have "\<forall>x \<in> insert 0 (fst ` set (upperLevel t st L dirty)). x \<le> row_max dirty div bf t"
    by (auto simp: upperLevel_def intro: div_le_mono row_max_ge)
  then show ?thesis unfolding row_max_def by (subst Max_le_iff) auto
qed

lemma upperLevel_length: "length (upperLevel t st L dirty) \<le> length dirty"
  unfolding upperLevel_def by (simp add: le_trans [OF length_remdups_leq])

lemma row_all_zero:
  assumes "row_max dirty = 0" "dirty \<noteq> []"
  shows "length (upperLevel t st L dirty) = 1"
proof -
  have "\<forall>e \<in> set dirty. fst e = 0" using assms(1) row_max_ge by fastforce
  then have "set (map (\<lambda>e. fst e div bf t) dirty) = {0}" using assms(2)
    by (cases dirty) auto
  then have "card (set (map (\<lambda>e. fst e div bf t) dirty)) = 1" by simp
  then show ?thesis unfolding upperLevel_def by (simp add: length_remdups_card_conv del: set_map)
qed

termination updateLevels
proof (relation "measure (\<lambda>(t, st, h, L, dirty). row_max dirty + (h - L) + length dirty)")
  show "wf (measure (\<lambda>(t, st, h, L, dirty). row_max dirty + (h - L) + length dirty))" by simp
next
  fix t :: Tree and st :: MapStore and h L :: nat and dirty :: row
  assume a: "\<not> (dirty = [] \<or> bf t < 2)" and b: "\<not> (length dirty = 1 \<and> fst (hd dirty) = 0 \<and> h \<le> L)"
  from a have ne: "dirty \<noteq> []" and b2: "2 \<le> bf t" by simp_all
  let ?up = "upperLevel t st L dirty"
  have len: "length ?up \<le> length dirty" by (rule upperLevel_length)
  have mx: "row_max ?up \<le> row_max dirty div bf t" by (rule row_max_upper [OF b2])
  have "row_max ?up + (h - Suc L) + length ?up < row_max dirty + (h - L) + length dirty"
  proof (cases "0 < row_max dirty")
    case True
    then have "row_max dirty div bf t < row_max dirty" using b2 by simp
    with mx len show ?thesis by linarith
  next
    case False
    then have z: "row_max dirty = 0" by simp
    then have mz: "row_max ?up = 0" using mx by simp
    have l1: "length ?up = 1" by (rule row_all_zero [OF z ne])
    have h0: "fst (hd dirty) = 0" using z ne row_max_ge [of "hd dirty" dirty] by simp
    show ?thesis
    proof (cases "h \<le> L")
      case True
      with b h0 have "length dirty \<noteq> 1" by simp
      with ne have "1 < length dirty" by (cases dirty) auto
      with z mz l1 show ?thesis by simp
    next
      case False
      with z mz l1 len show ?thesis by simp
    qed
  qed
  then show "((t, st, h, Suc L, ?up), (t, st, h, L, dirty))
      \<in> measure (\<lambda>(t, st, h, L, dirty). row_max dirty + (h - L) + length dirty)"
    by simp
qed

declare updateLevels.simps [simp del]

text \<open>
  \<open>root()\<close> reads the stored height and returns the top node, or nothing if the store
  has none there. \<open>update\<close> does not change the store; for no leaves it leaves the root
  as it is. \<open>verify\<close> refuses no leaves, a node not at level 0, a leaf index at or
  beyond the stored leaf count and a tree without root; otherwise it recomputes the
  ancestors of the given leaves with the siblings of the store, and succeeds iff the
  recomputed top is the stored root.
\<close>

definition Tree_Root :: "Tree \<Rightarrow> MapStore \<Rightarrow> Node option" where
  "Tree_Root t st =
     (case GetNode st (height st, 0) of
        None \<Rightarrow> None
      | Some d \<Rightarrow> Some \<lparr>Position = (height st, 0), Data = d\<rparr>)"

definition leafRow :: "Node list \<Rightarrow> row" where
  "leafRow leaves = map (\<lambda>n. (snd (Position n), Data n)) leaves"

definition Tree_Update :: "Tree \<Rightarrow> MapStore \<Rightarrow> Node list \<Rightarrow> nat \<Rightarrow> UpdateResult" where
  "Tree_Update t st leaves newLeafCount =
     (let h = tree_height (bf t) newLeafCount;
          res = (if leaves = [] then ([], Tree_Root t st)
                 else updateLevels t st h 0 (leafRow leaves))
      in \<lparr>LeafCount = newLeafCount, Height = h, Leaves = leaves,
          Branches = fst res, Root = snd res\<rparr>)"

definition Tree_Verify :: "Tree \<Rightarrow> MapStore \<Rightarrow> Node list \<Rightarrow> bool" where
  "Tree_Verify t st leaves =
     (if leaves = [] then False
      else if list_ex (\<lambda>n. 0 < fst (Position n) \<or> leafCount st \<le> snd (Position n)) leaves
      then False
      else
        (case Tree_Root t st of
           None \<Rightarrow> False
         | Some root \<Rightarrow>
             (case Root (Tree_Update t st leaves (leafCount st)) of
                None \<Rightarrow> False
              | Some r \<Rightarrow> Data r = Data root)))"

text \<open>
  What a committed tree is. The data stored at a position (nothing if there is none), the
  children of a parent, and the consistency of a store: its height is the one of its
  leaf count, every node lies within the height, and every node below the top has a
  stored parent whose data is the hash of the stored children.
\<close>

definition stored :: "MapStore \<Rightarrow> nat \<Rightarrow> nat \<Rightarrow> bytes" where
  "stored st L i = (case nodes st (L, i) of Some d \<Rightarrow> d | None \<Rightarrow> [])"

definition children :: "Tree \<Rightarrow> nat \<Rightarrow> nat list" where
  "children t p = [p * bf t ..< p * bf t + bf t]"

definition tree_inv :: "Tree \<Rightarrow> MapStore \<Rightarrow> bool" where
  "tree_inv t st \<longleftrightarrow>
     2 \<le> bf t \<and>
     (nodes st \<noteq> Map.empty \<longrightarrow> height st = tree_height (bf t) (leafCount st)) \<and>
     (\<forall>L i. nodes st (L, i) \<noteq> None \<longrightarrow>
        L \<le> height st \<and> i < bf t ^ (height st - L)) \<and>
     (\<forall>L i. L < height st \<longrightarrow> nodes st (L, i) \<noteq> None \<longrightarrow>
        nodes st (Suc L, i div bf t) =
          Some (hashFunc t (concat (map (stored st L) (children t (i div bf t))))))"

text \<open>The dirty nodes of a level agree with the store when each is stored as it is.\<close>

definition agrees :: "MapStore \<Rightarrow> nat \<Rightarrow> row \<Rightarrow> bool" where
  "agrees st L dirty \<longleftrightarrow> (\<forall>e \<in> set dirty. nodes st (L, fst e) = Some (snd e))"

text \<open>
  The dirty rows of an update, level by level, and the last entry for a position in a
  list of nodes (what \<open>CommitUpdate\<close> stores for it).
\<close>

primrec rowAt :: "Tree \<Rightarrow> MapStore \<Rightarrow> row \<Rightarrow> nat \<Rightarrow> row" where
  "rowAt t st r 0 = r"
| "rowAt t st r (Suc L) = upperLevel t st L (rowAt t st r L)"

definition lookupNodes :: "Node list \<Rightarrow> Position \<Rightarrow> bytes option" where
  "lookupNodes ns p = map_of (rev (map (\<lambda>n. (Position n, Data n)) ns)) p"

text \<open>
  An update as the storage layer makes it: some leaves, all at level 0 and below the new
  leaf count, which does not shrink, and every index the tree grows by is supplied.
\<close>

definition valid_update :: "MapStore \<Rightarrow> Node list \<Rightarrow> nat \<Rightarrow> bool" where
  "valid_update st leaves n \<longleftrightarrow>
     leaves \<noteq> [] \<and> list_all (\<lambda>x. fst (Position x) = 0 \<and> snd (Position x) < n) leaves \<and>
     leafCount st \<le> n \<and>
     list_all (\<lambda>i. i \<in> (\<lambda>x. snd (Position x)) ` set leaves) [leafCount st ..< n]"

text \<open>
  The stores that a tree reaches: the empty store, and each store committed from the
  result of such an update.
\<close>

inductive committed :: "Tree \<Rightarrow> MapStore \<Rightarrow> bool" where
  committed_empty: "committed (NewTree opts) NewMapStore"
| committed_update: "committed t st \<Longrightarrow> valid_update st leaves n \<Longrightarrow>
     committed t (CommitUpdate (Tree_Update t st leaves n) st)"

text \<open>
  The supplied leaves that differ from the store: the leaf indices of the input, each
  once, at which the data supplied last is not the data stored.
\<close>

definition alteredLeaves :: "MapStore \<Rightarrow> Node list \<Rightarrow> nat list" where
  "alteredLeaves st leaves =
     filter (\<lambda>i. lookup_last (leafRow leaves) i \<noteq> nodes st (0, i))
       (remdups (map (\<lambda>n. snd (Position n)) leaves))"

text \<open>
  Two properties of a hash. No second preimage on the tree: nothing but the
  concatenation of the stored children hashes to the hash of these children, for the
  children of every parent of a stored node (an injective hash has it). Fixed length:
  all digests have the same length.
\<close>

definition second_preimage_free :: "Tree \<Rightarrow> MapStore \<Rightarrow> bool" where
  "second_preimage_free t st \<longleftrightarrow>
     (\<forall>L i x. L < height st \<longrightarrow> nodes st (L, i) \<noteq> None \<longrightarrow>
        hashFunc t x = hashFunc t (concat (map (stored st L) (children t (i div bf t)))) \<longrightarrow>
        x = concat (map (stored st L) (children t (i div bf t))))"

definition fixed_length :: "(bytes \<Rightarrow> bytes) \<Rightarrow> bool" where
  "fixed_length H \<longleftrightarrow> (\<forall>x y. length (H x) = length (H y))"

text \<open>The indices of a level at which the data used by an update is not the stored data.\<close>

definition differing :: "MapStore \<Rightarrow> nat \<Rightarrow> row \<Rightarrow> nat set" where
  "differing st L dirty = {i. childData st L dirty i \<noteq> stored st L i}"

text \<open>
  The trees of \<open>TestTree_Update\<close> and \<open>TestTree_Verify\<close>: branch factor 3, any hash
  \<open>H\<close> (sha1 in the tests), seven leaves with data [i], then five leaves set to [1]
  with leaf count 10.
\<close>

definition test_tree :: "(bytes \<Rightarrow> bytes) \<Rightarrow> Tree" where
  "test_tree H = NewTree \<lparr>BranchFactor = 3, HashFunc = H\<rparr>"

definition leaf :: "nat \<Rightarrow> bytes \<Rightarrow> Node" where
  "leaf i d = \<lparr>Position = NewPosition 0 i, Data = d\<rparr>"

definition test_leaves :: "Node list" where
  "test_leaves = [leaf 0 [0], leaf 1 [1], leaf 2 [2], leaf 3 [3], leaf 4 [4], leaf 5 [5], leaf 6 [6]]"

definition test_store1 :: "(bytes \<Rightarrow> bytes) \<Rightarrow> MapStore" where
  "test_store1 H = CommitUpdate (Tree_Update (test_tree H) NewMapStore test_leaves 7) NewMapStore"

definition test_upd :: "Node list" where
  "test_upd = [leaf 2 [1], leaf 5 [1], leaf 7 [1], leaf 8 [1], leaf 9 [1]]"

definition test_store2 :: "(bytes \<Rightarrow> bytes) \<Rightarrow> MapStore" where
  "test_store2 H = CommitUpdate (Tree_Update (test_tree H) (test_store1 H) test_upd 10) (test_store1 H)"

section \<open>Storage\<close>

text \<open>
  Modelled from the spec: the commit records of package core. A state change carries a
  key and a value, the previous value, and the tree index and previous tree index (both
  optional, the bytes of a big unsigned integer). The elapsed times of a block commit
  are left out (they are measured wall-clock times).
\<close>

record StateChange =
  sc_Key :: bytes
  sc_Value :: bytes
  sc_PrevValue :: bytes
  sc_TreeIndex :: "bytes option"
  sc_PrevTreeIndex :: "bytes option"

record BlockCommit =
  bc_Hash :: bytes
  bc_StateChanges :: "StateChange list"
  bc_LeafCount :: bytes
  bc_MerkleRoot :: bytes

record pb_TxCommit =
  txc_Hash :: bytes
  txc_BlockHash :: bytes
  txc_BlockHeight :: "64 word"
  txc_Elapsed :: "64 word"
  txc_Error :: string

text \<open>
  \<open>CommitData\<close> (storage.go). The block, the transactions and the transaction commits
  are given by their data, which \<open>Commit\<close> reads without a nil check.
\<close>

record CommitData =
  cd_Block :: pb_Block
  cd_QC :: QuorumCert
  cd_Transactions :: "pb_Transaction list"
  cd_BlockCommit :: BlockCommit
  cd_TxCommits :: "pb_TxCommit list"
  cd_merkleUpdate :: "UpdateResult option"

text \<open>
  Modelled from the spec: the key-value database, as its column families
  (block/, block\_height/, last\_qc, block\_height, tx/, tx\_commit/, block commits,
  state/, state\_merkle\_idx/, and merkle\_node/, merkle\_leaf\_count, merkle\_height as a
  Merkle store). A write of a batch is an \<open>updateFunc\<close>.
\<close>

record DB =
  db_block :: "bytes \<rightharpoonup> pb_Block"
  db_blockByHeight :: "64 word \<rightharpoonup> bytes"
  db_lastQC :: "QuorumCert option"
  db_blockHeight :: "64 word option"
  db_tx :: "bytes \<rightharpoonup> pb_Transaction"
  db_txCommit :: "bytes \<rightharpoonup> pb_TxCommit"
  db_blockCommit :: "bytes \<rightharpoonup> BlockCommit"
  db_state :: "bytes \<rightharpoonup> bytes"
  db_merkleIndex :: "bytes \<rightharpoonup> bytes"
  db_merkle :: MapStore

datatype updateFunc =
    SetBlock bytes pb_Block
  | SetBlockByHeight "64 word" bytes
  | SetLastQC QuorumCert
  | SetBlockHeight "64 word"
  | SetTx bytes pb_Transaction
  | SetTxCommit bytes pb_TxCommit
  | SetBlockCommit bytes BlockCommit
  | SetState bytes bytes
  | SetMerkleIndex bytes bytes
  | SetMerkleNode Position bytes
  | SetMerkleLeafCount nat
  | SetMerkleHeight nat

fun applyUpdate :: "DB \<Rightarrow> updateFunc \<Rightarrow> DB" where
  "applyUpdate d (SetBlock h b) = d\<lparr>db_block := (db_block d)(h \<mapsto> b)\<rparr>"
| "applyUpdate d (SetBlockByHeight n h) = d\<lparr>db_blockByHeight := (db_blockByHeight d)(n \<mapsto> h)\<rparr>"
| "applyUpdate d (SetLastQC qc) = d\<lparr>db_lastQC := Some qc\<rparr>"
| "applyUpdate d (SetBlockHeight n) = d\<lparr>db_blockHeight := Some n\<rparr>"
| "applyUpdate d (SetTx h tx) = d\<lparr>db_tx := (db_tx d)(h \<mapsto> tx)\<rparr>"
| "applyUpdate d (SetTxCommit h txc) = d\<lparr>db_txCommit := (db_txCommit d)(h \<mapsto> txc)\<rparr>"
| "applyUpdate d (SetBlockCommit h bcm) = d\<lparr>db_blockCommit := (db_blockCommit d)(h \<mapsto> bcm)\<rparr>"
| "applyUpdate d (SetState k v) = d\<lparr>db_state := (db_state d)(k \<mapsto> v)\<rparr>"
| "applyUpdate d (SetMerkleIndex k i) = d\<lparr>db_merkleIndex := (db_merkleIndex d)(k \<mapsto> i)\<rparr>"
| "applyUpdate d (SetMerkleNode p v) =
     d\<lparr>db_merkle := (db_merkle d)\<lparr>nodes := (nodes (db_merkle d))(p \<mapsto> v)\<rparr>\<rparr>"
| "applyUpdate d (SetMerkleLeafCount n) = d\<lparr>db_merkle := (db_merkle d)\<lparr>leafCount := n\<rparr>\<rparr>"
| "applyUpdate d (SetMerkleHeight n) = d\<lparr>db_merkle := (db_merkle d)\<lparr>height := n\<rparr>\<rparr>"

text \<open>
  \<open>Storage\<close> (storage.go): the database and the configuration that \<open>New\<close> was given.
  The trace is the history of what the storage did to the database and to its writer
  lock: each batch attempted, with whether it was applied, and each lock and unlock.
\<close>

datatype event = Batch "updateFunc list" bool | Lock | Unlock

record Config =
  MerkleBranchFactor :: "8 word"

record Storage =
  db :: DB
  config :: Config
  trace :: "event list"

definition New :: "DB \<Rightarrow> Config \<Rightarrow> Storage" where
  "New d cfg = \<lparr>db = d, config = cfg, trace = []\<rparr>"

text \<open>The tree that \<open>New\<close> makes: sha3-256, the configured branch factor.\<close>

definition merkleTree :: "crypto \<Rightarrow> Storage \<Rightarrow> Tree" where
  "merkleTree c strg =
     NewTree \<lparr>BranchFactor = MerkleBranchFactor (config strg), HashFunc = sha3_256 c\<rparr>"

text \<open>
  \<open>updateBadgerDB\<close> runs the update functions in one database transaction: all are
  applied, or an error is returned and none is. Whether the transaction of a batch
  fails is not the program's choice: \<open>io k\<close> tells it for the k-th batch the storage
  attempts.
\<close>

fun isBatch :: "event \<Rightarrow> bool" where
  "isBatch (Batch fns ok) = True"
| "isBatch e = False"

definition attempts :: "Storage \<Rightarrow> nat" where
  "attempts strg = length (filter isBatch (trace strg))"

definition updateBadgerDB :: "(nat \<Rightarrow> bool) \<Rightarrow> Storage \<Rightarrow> updateFunc list \<Rightarrow> error option \<times> Storage" where
  "updateBadgerDB io strg fns =
     (if io (attempts strg)
      then (Some StorageIOError, strg\<lparr>trace := trace strg @ [Batch fns False]\<rparr>)
      else (None, strg\<lparr>db := foldl applyUpdate (db strg) fns,
                       trace := trace strg @ [Batch fns True]\<rparr>))"

text \<open>
  Modelled from the spec: the update functions of the chain store, the state store and
  the Merkle store, and the reads of the state store.
\<close>

definition setBlock :: "pb_Block \<Rightarrow> updateFunc list" where
  "setBlock blk = [SetBlock (blk_Hash blk) blk, SetBlockByHeight (blk_Height blk) (blk_Hash blk)]"

definition setTxs :: "pb_Transaction list \<Rightarrow> updateFunc list" where
  "setTxs txs = map (\<lambda>tx. SetTx (tx_Hash tx) tx) txs"

definition setTxCommits :: "pb_TxCommit list \<Rightarrow> updateFunc list" where
  "setTxCommits txcs = map (\<lambda>txc. SetTxCommit (txc_Hash txc) txc) txcs"

definition setBlockCommit :: "BlockCommit \<Rightarrow> updateFunc" where
  "setBlockCommit bcm = SetBlockCommit (bc_Hash bcm) bcm"

definition getState :: "DB \<Rightarrow> bytes \<Rightarrow> bytes" where
  "getState d key = (case db_state d key of None \<Rightarrow> [] | Some v \<Rightarrow> v)"

definition getMerkleIndex :: "DB \<Rightarrow> bytes \<Rightarrow> bytes option" where
  "getMerkleIndex d key = db_merkleIndex d key"

definition sumStateValue :: "crypto \<Rightarrow> bytes \<Rightarrow> bytes" where
  "sumStateValue c v = sha3_256 c v"

text \<open>\<open>big.Int.SetBytes\<close> is \<open>be_value\<close>; \<open>big.Int.Bytes\<close> is the shortest big-endian form.\<close>

fun big_Bytes :: "nat \<Rightarrow> bytes" where
  "big_Bytes n = (if n = 0 then [] else big_Bytes (n div 256) @ [of_nat (n mod 256)])"

declare big_Bytes.simps [simp del]

definition treeIndexOf :: "StateChange \<Rightarrow> nat" where
  "treeIndexOf sc = be_value (case sc_TreeIndex sc of None \<Rightarrow> [] | Some b \<Rightarrow> b)"

definition loadPrevValues :: "DB \<Rightarrow> StateChange list \<Rightarrow> StateChange list" where
  "loadPrevValues d scs = map (\<lambda>sc. sc\<lparr>sc_PrevValue := getState d (sc_Key sc)\<rparr>) scs"

definition loadPrevTreeIndexes :: "DB \<Rightarrow> StateChange list \<Rightarrow> StateChange list" where
  "loadPrevTreeIndexes d scs = map (\<lambda>sc. sc\<lparr>sc_PrevTreeIndex := getMerkleIndex d (sc_Key sc)\<rparr>) scs"

fun setNewTreeIndexes :: "StateChange list \<Rightarrow> nat \<Rightarrow> StateChange list \<times> nat" where
  "setNewTreeIndexes [] count = ([], count)"
| "setNewTreeIndexes (sc # scs) count =
     (case sc_PrevTreeIndex sc of
        Some i \<Rightarrow>
          (case setNewTreeIndexes scs count of
             (scs', n) \<Rightarrow> (sc\<lparr>sc_TreeIndex := Some i\<rparr> # scs', n))
      | None \<Rightarrow>
          (case setNewTreeIndexes scs (Suc count) of
             (scs', n) \<Rightarrow> (sc\<lparr>sc_TreeIndex := Some (big_Bytes count)\<rparr> # scs', n)))"

definition computeUpdatedTreeNodes :: "crypto \<Rightarrow> StateChange list \<Rightarrow> Node list" where
  "computeUpdatedTreeNodes c scs =
     map (\<lambda>sc. \<lparr>Position = NewPosition 0 (treeIndexOf sc),
                Data = sumStateValue c (sc_Value sc)\<rparr>) scs"

definition commitStateChanges :: "StateChange list \<Rightarrow> updateFunc list" where
  "commitStateChanges scs =
     concat (map (\<lambda>sc. [SetState (sc_Key sc) (sc_Value sc),
                         SetMerkleIndex (sc_Key sc)
                           (case sc_TreeIndex sc of None \<Rightarrow> [] | Some b \<Rightarrow> b)]) scs)"

definition commitUpdate :: "UpdateResult \<Rightarrow> updateFunc list" where
  "commitUpdate upd =
     map (\<lambda>n. SetMerkleNode (Position n) (Data n)) (Leaves upd @ Branches upd) @
     [SetMerkleLeafCount (LeafCount upd), SetMerkleHeight (Height upd)]"

text \<open>
  \<open>Storage.computeMerkleUpdate\<close> (storage.go): it reads the storage and changes the
  commit data only. \<open>data.merkleUpdate.Root.Data\<close> panics on a nil root.
\<close>

definition computeMerkleUpdate :: "crypto \<Rightarrow> Storage \<Rightarrow> CommitData \<Rightarrow> CommitData outcome" where
  "computeMerkleUpdate c strg cdata =
     (let scs = loadPrevValues (db strg) (bc_StateChanges (cd_BlockCommit cdata));
          scs = loadPrevTreeIndexes (db strg) scs;
          prevLeafCount = leafCount (db_merkle (db strg));
          (scs, newLeafCount) = setNewTreeIndexes scs prevLeafCount;
          leaves = computeUpdatedTreeNodes c scs;
          upd = Tree_Update (merkleTree c strg) (db_merkle (db strg)) leaves newLeafCount
      in case Root upd of
           None \<Rightarrow> Panics
         | Some root \<Rightarrow>
             Returns (cdata\<lparr>cd_merkleUpdate := Some upd,
                            cd_BlockCommit := (cd_BlockCommit cdata)
                              \<lparr>bc_StateChanges := scs,
                               bc_LeafCount := big_Bytes (LeafCount upd),
                               bc_MerkleRoot := Data root\<rparr>\<rparr>))"

text \<open>The four writes of \<open>writeCommitData\<close> (storage.go), each one batch.\<close>

definition writeChainData :: "(nat \<Rightarrow> bool) \<Rightarrow> Storage \<Rightarrow> CommitData \<Rightarrow> error option \<times> Storage" where
  "writeChainData io strg cdata =
     (let updFns = [];
          updFns = updFns @ setBlock (cd_Block cdata);
          updFns = updFns @ [SetLastQC (cd_QC cdata)];
          updFns = updFns @ setTxs (cd_Transactions cdata);
          updFns = updFns @ setTxCommits (cd_TxCommits cdata)
      in updateBadgerDB io strg updFns)"

definition writeBlockCommit :: "(nat \<Rightarrow> bool) \<Rightarrow> Storage \<Rightarrow> CommitData \<Rightarrow> error option \<times> Storage" where
  "writeBlockCommit io strg cdata =
     updateBadgerDB io strg [setBlockCommit (cd_BlockCommit cdata)]"

definition writeStateMerkleTree :: "(nat \<Rightarrow> bool) \<Rightarrow> Storage \<Rightarrow> CommitData \<Rightarrow> (error option \<times> Storage) outcome" where
  "writeStateMerkleTree io strg cdata =
     (if bc_StateChanges (cd_BlockCommit cdata) = [] then Returns (None, strg)
      else
        (let strg = strg\<lparr>trace := trace strg @ [Lock]\<rparr>;
             updFns = commitStateChanges (bc_StateChanges (cd_BlockCommit cdata))
         in case cd_merkleUpdate cdata of
              None \<Rightarrow> Panics
            | Some upd \<Rightarrow>
                (case updateBadgerDB io strg (updFns @ commitUpdate upd) of
                   (err, strg) \<Rightarrow> Returns (err, strg\<lparr>trace := trace strg @ [Unlock]\<rparr>))))"

definition setCommitedBlockHeight :: "(nat \<Rightarrow> bool) \<Rightarrow> Storage \<Rightarrow> 64 word \<Rightarrow> error option \<times> Storage" where
  "setCommitedBlockHeight io strg h = updateBadgerDB io strg [SetBlockHeight h]"

definition writeCommitData :: "(nat \<Rightarrow> bool) \<Rightarrow> Storage \<Rightarrow> CommitData \<Rightarrow> (error option \<times> Storage) outcome" where
  "writeCommitData io strg cdata =
     (case writeChainData io strg cdata of
        (Some err, strg) \<Rightarrow> Returns (Some err, strg)
      | (None, strg) \<Rightarrow>
          (case writeBlockCommit io strg cdata of
             (Some err, strg) \<Rightarrow> Returns (Some err, strg)
           | (None, strg) \<Rightarrow>
               (case writeStateMerkleTree io strg cdata of
                  Panics \<Rightarrow> Panics
                | Returns (Some err, strg) \<Rightarrow> Returns (Some err, strg)
                | Returns (None, strg) \<Rightarrow>
                    Returns (setCommitedBlockHeight io strg (blk_Height (cd_Block cdata))))))"

text \<open>
  \<open>Storage.commit\<close> (storage.go); the logging and the timing are left out. It returns
  the error, the storage and the commit data as \<open>computeMerkleUpdate\<close> left it.
\<close>

definition commit :: "(nat \<Rightarrow> bool) \<Rightarrow> crypto \<Rightarrow> Storage \<Rightarrow> CommitData \<Rightarrow> (error option \<times> Storage \<times> CommitData) outcome" where
  "commit io c strg cdata =
     (case (if bc_StateChanges (cd_BlockCommit cdata) \<noteq> []
            then computeMerkleUpdate c strg cdata else Returns cdata) of
        Panics \<Rightarrow> Panics
      | Returns cdata \<Rightarrow>
          (case writeCommitData io strg cdata of
             Panics \<Rightarrow> Panics
           | Returns (err, strg) \<Rightarrow> Returns (err, strg, cdata)))"

definition Commit :: "(nat \<Rightarrow> bool) \<Rightarrow> crypto \<Rightarrow> Storage \<Rightarrow> CommitData \<Rightarrow> (error option \<times> Storage \<times> CommitData) outcome" where
  "Commit io c strg cdata = commit io c strg cdata"

text \<open>
  \<open>Storage.VerifyState\<close> (storage.go). It only reads; the shared lock it holds
  meanwhile is not modelled.
\<close>

definition VerifyState :: "crypto \<Rightarrow> Storage \<Rightarrow> bytes \<Rightarrow> error + bytes" where
  "VerifyState c strg key =
     (let v = getState (db strg) key
      in case getMerkleIndex (db strg) key of
           None \<Rightarrow> Inl StateNotFound
         | Some merkleIdx \<Rightarrow>
             (let node = \<lparr>Position = NewPosition 0 (be_value merkleIdx),
                          Data = sumStateValue c v\<rparr>
              in if \<not> Tree_Verify (merkleTree c strg) (db_merkle (db strg)) [node]
                 then Inl MerkleVerifyFailed
                 else Inr v))"

text \<open>
  For stating what the batches hold: whether an update function sets the committed block
  height, the update functions of the chain data batch, and those of the state and
  Merkle batch.
\<close>

fun isSetBlockHeight :: "updateFunc \<Rightarrow> bool" where
  "isSetBlockHeight (SetBlockHeight h) = True"
| "isSetBlockHeight f = False"

definition chainDataUpdates :: "CommitData \<Rightarrow> updateFunc list" where
  "chainDataUpdates cdata =
     setBlock (cd_Block cdata) @ [SetLastQC (cd_QC cdata)] @ setTxs (cd_Transactions cdata) @
     setTxCommits (cd_TxCommits cdata)"

definition stateMerkleUpdates :: "CommitData \<Rightarrow> updateFunc list" where
  "stateMerkleUpdates cdata =
     commitStateChanges (bc_StateChanges (cd_BlockCommit cdata)) @
     (case cd_merkleUpdate cdata of None \<Rightarrow> [] | Some upd \<Rightarrow> commitUpdate upd)"

section \<open>Storage: what a commit leaves behind\<close>

text \<open>What a batch does to the state, to the tree indexes and to the Merkle store.\<close>

fun stateOf :: "(bytes \<rightharpoonup> bytes) \<Rightarrow> updateFunc \<Rightarrow> (bytes \<rightharpoonup> bytes)" where
  "stateOf m (SetState k v) = m(k \<mapsto> v)"
| "stateOf m f = m"

fun indexOf :: "(bytes \<rightharpoonup> bytes) \<Rightarrow> updateFunc \<Rightarrow> (bytes \<rightharpoonup> bytes)" where
  "indexOf m (SetMerkleIndex k i) = m(k \<mapsto> i)"
| "indexOf m f = m"

fun merkleOf :: "MapStore \<Rightarrow> updateFunc \<Rightarrow> MapStore" where
  "merkleOf st (SetMerkleNode p v) = st\<lparr>nodes := (nodes st)(p \<mapsto> v)\<rparr>"
| "merkleOf st (SetMerkleLeafCount n) = st\<lparr>leafCount := n\<rparr>"
| "merkleOf st (SetMerkleHeight n) = st\<lparr>height := n\<rparr>"
| "merkleOf st f = st"

text \<open>The tree index bytes that the batch writes for a state change, and whether the
  key of a state change had no tree index before.\<close>

definition indexBytes :: "StateChange \<Rightarrow> bytes" where
  "indexBytes sc = (case sc_TreeIndex sc of None \<Rightarrow> [] | Some b \<Rightarrow> b)"

definition isNew :: "StateChange \<Rightarrow> bool" where
  "isNew sc \<longleftrightarrow> sc_PrevTreeIndex sc = None"

text \<open>
  A storage in step with its tree: the Merkle store is one the tree reaches, every key
  with a tree index has, at that index and below the leaf count, the leaf that holds
  the hash of its value, and no two keys share an index.
\<close>

definition storage_ok :: "crypto \<Rightarrow> Storage \<Rightarrow> bool" where
  "storage_ok c strg \<longleftrightarrow>
     committed (merkleTree c strg) (db_merkle (db strg)) \<and>
     (\<forall>k idx. db_merkleIndex (db strg) k = Some idx \<longrightarrow>
        be_value idx < leafCount (db_merkle (db strg)) \<and>
        nodes (db_merkle (db strg)) (0, be_value idx) = Some (sha3_256 c (getState (db strg) k))) \<and>
     (\<forall>k k' a b. db_merkleIndex (db strg) k = Some a \<longrightarrow> db_merkleIndex (db strg) k' = Some b \<longrightarrow>
        be_value a = be_value b \<longrightarrow> k = k')"

section \<open>A toy instance of the primitives, for concrete runs\<close>

text \<open>
  Concrete runs need concrete primitives. The toy digest prefixes its input with its
  length, a key is any 4 bytes, and the signature of a message under a key is the key
  followed by the message. Nothing below depends on these choices except the runs that
  name \<open>toy\<close>.
\<close>

definition toy :: crypto where
  "toy = \<lparr>sha3_256 = (\<lambda>bs. of_nat (length bs) # bs),
          key_ok = (\<lambda>k. length k = 4),
          sig_verify = (\<lambda>k msg v. v = k @ msg)\<rparr>"

definition toy_key :: "nat \<Rightarrow> bytes" where
  "toy_key i = [0, 0, 0, of_nat i]"

definition toy_vote :: "bytes \<Rightarrow> nat \<Rightarrow> pb_Vote" where
  "toy_vote h i =
     \<lparr>vote_BlockHash = h,
      vote_Signature = Some \<lparr>sig_PubKey = toy_key i, sig_Value = toy_key i @ h\<rparr>\<rparr>"

text \<open>Validators 0..3 of five key pairs, as in \<open>TestQuorumCert\<close>.\<close>

definition toy_vs :: ValidatorStore where
  "toy_vs = \<lparr>ValidatorCount = 4, IsValidator = (\<lambda>k. k \<in> set (map toy_key [0, 1, 2, 3]))\<rparr>"

definition toy_qc :: QuorumCert where
  "toy_qc = QuorumCert_Build [toy_vote [1] 2, toy_vote [1] 1, toy_vote [1] 0]"

text \<open>A block signed the way \<open>Block.Sign\<close> does it, by the toy key \<open>key\<close>.\<close>

definition toy_block :: "bytes \<Rightarrow> Block" where
  "toy_block key =
     (let d = \<lparr>blk_Height = 5, blk_Hash = [], blk_ParentHash = [1], blk_Proposer = key,
               blk_Signature = [], blk_QuorumCert = qcw_data toy_qc, blk_ExecHeight = 3,
               blk_StateRoot = [7], blk_Transactions = [[9], [8]]\<rparr>;
          h = (case Block_Sum (sha3_256 toy) \<lparr>data = Some d, proposer = Some key, quorumCert = Some toy_qc\<rparr> of
                 Panics \<Rightarrow> [] | Returns s \<Rightarrow> s)
      in \<lparr>data = Some (d\<lparr>blk_Hash := h, blk_Signature := key @ h\<rparr>),
          proposer = Some key, quorumCert = Some toy_qc\<rparr>)"


text \<open>A committed tree of two leaves with data [0, 1] and [2], under the toy digest.\<close>

definition two_leaf_store :: MapStore where
  "two_leaf_store =
     CommitUpdate
       (Tree_Update (test_tree (sha3_256 toy)) NewMapStore [leaf 0 [0, 1], leaf 1 [2]] 2)
       NewMapStore"

text \<open>
  A hash with one-byte digests that has no second preimage on the tree of
  \<open>TestTree_Verify\<close> built with it.
\<close>

definition byte_hash :: "bytes \<Rightarrow> bytes" where
  "byte_hash x =
     (if x = [0, 1, 2] then [1] else if x = [3, 4, 5] then [2] else if x = [6] then [3]
      else if x = [1, 2, 3] then [4] else [0])"

text \<open>
  A tree of one leaf, and the same tree after an update that sets leaf 9 with leaf count
  10, without supplying the leaves 1 to 8 it adds.
\<close>

definition one_leaf_store :: MapStore where
  "one_leaf_store =
     CommitUpdate (Tree_Update (test_tree (sha3_256 toy)) NewMapStore [leaf 0 [0]] 1) NewMapStore"

definition sparse_store :: MapStore where
  "sparse_store =
     CommitUpdate (Tree_Update (test_tree (sha3_256 toy)) one_leaf_store [leaf 9 [1]] 10)
       one_leaf_store"

text \<open>An empty database.\<close>

definition toy_db :: DB where
  "toy_db = \<lparr>db_block = Map.empty, db_blockByHeight = Map.empty, db_lastQC = None,
            db_blockHeight = None, db_tx = Map.empty, db_txCommit = Map.empty,
            db_blockCommit = Map.empty, db_state = Map.empty, db_merkleIndex = Map.empty,
            db_merkle = NewMapStore\<rparr>"

text \<open>
  A storage with the state [1] -> [10], [2] -> [20] at tree indexes 0 and 1, and the tree
  committed from the hashes of the two values (branch factor 8, the toy digest).
\<close>

definition toy_storage :: Storage where
  "toy_storage =
     \<lparr>db = toy_db
        \<lparr>db_state := [[1] \<mapsto> [10], [2] \<mapsto> [20]],
         db_merkleIndex := [[1] \<mapsto> big_Bytes 0, [2] \<mapsto> big_Bytes 1],
         db_merkle :=
           CommitUpdate
             (Tree_Update (NewTree \<lparr>BranchFactor = 8, HashFunc = sha3_256 toy\<rparr>) NewMapStore
                [leaf 0 (sha3_256 toy [10]), leaf 1 (sha3_256 toy [20])] 2)
             NewMapStore\<rparr>,
      config = \<lparr>MerkleBranchFactor = 8\<rparr>,
      trace = []\<rparr>"

text \<open>The same storage after the stored value of key [1] was overwritten.\<close>

definition tampered_storage :: Storage where
  "tampered_storage = toy_storage\<lparr>db := (db toy_storage)\<lparr>db_state := (db_state (db toy_storage))([1] \<mapsto> [11])\<rparr>\<rparr>"

section \<open>Properties of the canonical hashes\<close>

lemma write_all_concat: "write_all h txs = h @ concat txs"
  by (induction txs arbitrary: h) (simp_all add: hash_Write_def)

lemma byte_of_drop_bit:
  "unat (ucast (drop_bit k (v::64 word)) :: 8 word) = (unat v div 2 ^ k) mod 256"
proof -
  have "unat (ucast (drop_bit k v) :: 8 word) = take_bit 8 (drop_bit k (unat v))"
    by (simp add: unsigned_ucast_eq unat_drop_bit_eq)
  then show ?thesis by (simp add: take_bit_eq_mod drop_bit_eq_div)
qed

lemma uint64ToBytes_length: "length (uint64ToBytes v) = 8"
  by (simp add: uint64ToBytes_def)

lemma uint64ToBytes_big_endian: "be_value (uint64ToBytes v) = unat v"
proof -
  define d where "d k = unat v div 2 ^ k" for k
  define r where "r k = d k mod 256" for k
  have step: "d k = 256 * d (k + 8) + r k" for k
    unfolding d_def r_def by (simp add: power_add div_mult2_eq)
  have d0: "d 0 = unat v" by (simp add: d_def)
  have "unat v < 2 ^ 64" using unsigned_less [of v, where ?'a = nat] by simp
  then have d64: "d 64 = 0" by (simp add: d_def)
  have b: "unat (ucast (drop_bit k v) :: 8 word) = r k" for k
    by (simp add: byte_of_drop_bit r_def d_def)
  have b0: "unat (ucast v :: 8 word) = r 0"
    using b [of 0] by simp
  have "be_value (uint64ToBytes v) =
      ((((((r 56 * 256 + r 48) * 256 + r 40) * 256 + r 32) * 256 + r 24) * 256 + r 16)
          * 256 + r 8) * 256 + r 0"
    by (simp add: uint64ToBytes_def be_value_def b b0)
  also have "\<dots> = d 0"
    using step [of 0] step [of 8] step [of 16] step [of 24] step [of 32] step [of 40]
      step [of 48] step [of 56] d64 by simp
  finally show ?thesis by (simp add: d0)
qed

lemma Block_Sum_eq:
  "Block_Sum sha \<lparr>data = Some d, proposer = p, quorumCert = q\<rparr> =
     Returns (sha (uint64ToBytes (blk_Height d) @ blk_ParentHash d @ blk_Proposer d @
                   qc_block_hash d @ uint64ToBytes (blk_ExecHeight d) @ blk_StateRoot d @
                   concat (blk_Transactions d)))"
  by (simp add: Block_Sum_def qc_block_hash_def hash_Write_def write_all_concat split: option.split)

lemma Transaction_Sum_eq:
  "Transaction_Sum sha \<lparr>txdata = Some t, sender = s\<rparr> =
     Returns (sha (uint64ToBytes (tx_Nonce t) @ tx_Sender t @ tx_CodeAddr t @ tx_Input t))"
  by (simp add: Transaction_Sum_def hash_Write_def binary_Write_BigEndian_def)

text \<open>
  C1. \<open>Block.Sum\<close> is the sha3-256 digest of big-endian(height), parent hash, proposer,
  the block hash of the embedded quorum certificate, big-endian(exec height), state
  root and the transaction hashes in order, concatenated; \<open>Transaction.Sum\<close> is the
  digest of big-endian(nonce), sender, code address and input. Both depend on no other
  field (the right-hand sides mention none), and the integer encoding is eight bytes
  whose big-endian value is the integer.
\<close>

theorem Sum_is_digest_of_canonical_fields:
  "Block_Sum sha \<lparr>data = Some d, proposer = p, quorumCert = q\<rparr> =
     Returns (sha (uint64ToBytes (blk_Height d) @ blk_ParentHash d @ blk_Proposer d @
                   qc_block_hash d @ uint64ToBytes (blk_ExecHeight d) @ blk_StateRoot d @
                   concat (blk_Transactions d)))
   \<and> Transaction_Sum sha \<lparr>txdata = Some t, sender = s\<rparr> =
     Returns (sha (uint64ToBytes (tx_Nonce t) @ tx_Sender t @ tx_CodeAddr t @ tx_Input t))
   \<and> length (uint64ToBytes v) = 8 \<and> be_value (uint64ToBytes v) = unat v"
  by (simp add: Block_Sum_def Transaction_Sum_def qc_block_hash_def hash_Write_def
      binary_Write_BigEndian_def write_all_concat uint64ToBytes_length
      uint64ToBytes_big_endian split: option.split)

text \<open>
  C10. \<open>Block.Sum\<close> returns for a block without a quorum certificate, where it writes
  nothing for the certificate; a block whose certificate has an empty block hash and
  the same other fields has the same sum.
\<close>

theorem Sum_nil_qc_same_as_empty_qc_hash:
  "Block_Sum sha \<lparr>data = Some (d\<lparr>blk_QuorumCert := None\<rparr>), proposer = p, quorumCert = q\<rparr> =
     Returns (sha (uint64ToBytes (blk_Height d) @ blk_ParentHash d @ blk_Proposer d @
                   uint64ToBytes (blk_ExecHeight d) @ blk_StateRoot d @
                   concat (blk_Transactions d)))
   \<and> Block_Sum sha \<lparr>data = Some (d\<lparr>blk_QuorumCert := None\<rparr>), proposer = p, quorumCert = q\<rparr> =
     Block_Sum sha
       \<lparr>data = Some (d\<lparr>blk_QuorumCert := Some \<lparr>qc_BlockHash = [], qc_Signatures = sgs\<rparr>\<rparr>),
        proposer = p', quorumCert = q'\<rparr>"
  by (simp add: Block_Sum_def hash_Write_def write_all_concat)

section \<open>Quorum certificates\<close>

lemma newSigList_eq:
  "newSigList c ds =
     (if \<forall>s \<in> set ds. \<exists>p. s = Some p \<and> key_ok c (sig_PubKey p)
      then Some (map (\<lambda>s. \<lparr>sg_data = the s, sg_pubKey = sig_PubKey (the s)\<rparr>) ds)
      else None)"
proof (induction ds)
  case Nil
  then show ?case by simp
next
  case (Cons d ds)
  show ?case
  proof (cases d)
    case None
    then show ?thesis by (simp add: newSignature_def)
  next
    case (Some p)
    then show ?thesis
      using Cons.IH by (simp add: newSignature_def)
  qed
qed

lemma hasDuplicate_iff: "hasDuplicate sgs \<longleftrightarrow> \<not> distinct (map sg_pubKey sgs)"
  by (induction sgs) auto

lemma hasInvalidValidator_iff:
  "hasInvalidValidator vs sgs \<longleftrightarrow> (\<exists>sg \<in> set sgs. \<not> IsValidator vs (sg_pubKey sg))"
  by (induction sgs) auto

lemma hasInvalidSig_iff:
  "hasInvalidSig c msg sgs \<longleftrightarrow> (\<exists>sg \<in> set sgs. \<not> Signature_Verify c sg msg)"
  by (induction sgs) auto

lemma distinct_keys_of_Some:
  assumes "\<forall>s \<in> set ds. \<exists>p. s = Some p"
  shows "distinct (map (map_option sig_PubKey) ds) \<longleftrightarrow> distinct (map (\<lambda>s. sig_PubKey (the s)) ds)"
proof -
  have "map (map_option sig_PubKey) ds = map Some (map (\<lambda>s. sig_PubKey (the s)) ds)"
    using assms by (induction ds) auto
  then show ?thesis by (simp add: distinct_map del: map_map)
qed

text \<open>
  C2. With N validators and threshold Q = N - floor((N - 1) / 3) (3 when N = 4), a
  quorum certificate validates exactly when it has at least Q signatures, every signature
  is present and well formed, its signer is a validator and it verifies over the block
  hash, and the signer keys are pairwise distinct. So a certificate with fewer than Q
  signatures, a duplicate signer, a signer outside the validator set, a nil signature
  or a malformed one fails.
\<close>

theorem QuorumCert_Validate_iff:
  "(QuorumCert_Validate c vs (Some \<lparr>qcw_data = Some d\<rparr>) = None \<longleftrightarrow>
      ValidatorCount vs - (ValidatorCount vs - 1) div 3 \<le> length (qc_Signatures d) \<and>
      distinct (map (map_option sig_PubKey) (qc_Signatures d)) \<and>
      (\<forall>s \<in> set (qc_Signatures d). \<exists>p. s = Some p \<and> key_ok c (sig_PubKey p) \<and>
          IsValidator vs (sig_PubKey p) \<and>
          sig_verify c (sig_PubKey p) (qc_BlockHash d) (sig_Value p)))
   \<and> MajorityCount 4 = 3"
proof -
  let ?ds = "qc_Signatures d"
  let ?wf = "\<forall>s \<in> set ?ds. \<exists>p. s = Some p \<and> key_ok c (sig_PubKey p)"
  let ?wrap = "\<lambda>s. \<lparr>sg_data = the s, sg_pubKey = sig_PubKey (the s)\<rparr>"
  let ?all = "\<forall>s \<in> set ?ds. \<exists>p. s = Some p \<and> key_ok c (sig_PubKey p) \<and>
          IsValidator vs (sig_PubKey p) \<and>
          sig_verify c (sig_PubKey p) (qc_BlockHash d) (sig_Value p)"
  have m4: "MajorityCount 4 = 3" by (simp add: MajorityCount_def)
  show ?thesis
  proof (cases ?wf)
    case False
    then have na: "\<not> ?all" by blast
    have "newSigList c ?ds = None"
      unfolding newSigList_eq using False by (rule if_not_P)
    then have "QuorumCert_Validate c vs (Some \<lparr>qcw_data = Some d\<rparr>) = Some QCValidationFailed"
      by (simp add: QuorumCert_Validate_def)
    then show ?thesis
      using na m4 by (simp only: option.distinct simp_thms)
  next
    case True
    then have some: "\<forall>s \<in> set ?ds. \<exists>p. s = Some p" by blast
    have dk: "hasDuplicate (map ?wrap ?ds) \<longleftrightarrow> \<not> distinct (map (map_option sig_PubKey) ?ds)"
      using distinct_keys_of_Some [OF some] by (simp add: hasDuplicate_iff o_def)
    have iv: "hasInvalidValidator vs (map ?wrap ?ds) \<longleftrightarrow>
        \<not> (\<forall>s \<in> set ?ds. IsValidator vs (sig_PubKey (the s)))"
      by (simp add: hasInvalidValidator_iff)
    have isg: "hasInvalidSig c (qc_BlockHash d) (map ?wrap ?ds) \<longleftrightarrow>
        \<not> (\<forall>s \<in> set ?ds. sig_verify c (sig_PubKey (the s)) (qc_BlockHash d) (sig_Value (the s)))"
      by (simp add: hasInvalidSig_iff Signature_Verify_def)
    have all: "?all \<longleftrightarrow> (\<forall>s \<in> set ?ds. IsValidator vs (sig_PubKey (the s))) \<and>
        (\<forall>s \<in> set ?ds. sig_verify c (sig_PubKey (the s)) (qc_BlockHash d) (sig_Value (the s)))"
      using True by fastforce
    have "QuorumCert_Validate c vs (Some \<lparr>qcw_data = Some d\<rparr>) = None \<longleftrightarrow>
        \<not> length ?ds < MajorityCount (ValidatorCount vs) \<and>
        distinct (map (map_option sig_PubKey) ?ds) \<and> ?all"
      unfolding all using True
      by (simp add: QuorumCert_Validate_def newSigList_eq dk iv isg)
    then show ?thesis
      by (simp add: m4 MajorityCount_def not_less)
  qed
qed

text \<open>
  The run of \<open>TestQuorumCert\<close>: five keys, the first four validators; votes of
  {2, 1, 0} validate, {1, 0} are too few, {2, 3, 0, 2} repeat a signer, {1, 3, 0, 4}
  contain a non-validator, a nil signature and a wrong signature value are refused.
\<close>

lemmas toy_defs = toy_def toy_key_def toy_vote_def toy_vs_def QuorumCert_Build_def

theorem QuorumCert_Validate_witness:
  "QuorumCert_Validate toy toy_vs
     (Some (QuorumCert_Build [toy_vote [1] 2, toy_vote [1] 1, toy_vote [1] 0])) = None
   \<and> QuorumCert_Validate toy toy_vs
     (Some (QuorumCert_Build [toy_vote [1] 1, toy_vote [1] 0])) = Some InsufficientSignatures
   \<and> QuorumCert_Validate toy toy_vs
     (Some (QuorumCert_Build [toy_vote [1] 2, toy_vote [1] 3, toy_vote [1] 0, toy_vote [1] 2]))
       = Some DuplicateSigner
   \<and> QuorumCert_Validate toy toy_vs
     (Some (QuorumCert_Build [toy_vote [1] 1, toy_vote [1] 3, toy_vote [1] 0, toy_vote [1] 4]))
       = Some ErrInvalidValidator
   \<and> QuorumCert_Validate toy toy_vs
     (Some (QuorumCert_Build [toy_vote [1] 2, toy_vote [1] 3,
        \<lparr>vote_BlockHash = [1], vote_Signature = None\<rparr>, toy_vote [1] 0]))
       = Some QCValidationFailed
   \<and> QuorumCert_Validate toy toy_vs
     (Some (QuorumCert_Build [toy_vote [1] 2, toy_vote [1] 1,
        \<lparr>vote_BlockHash = [1],
         vote_Signature = Some \<lparr>sig_PubKey = toy_key 0, sig_Value = toy_key 0 @ [2]\<rparr>\<rparr>]))
       = Some ErrInvalidSig"
proof -
  have "QuorumCert_Validate toy toy_vs
     (Some (QuorumCert_Build [toy_vote [1] 2, toy_vote [1] 1, toy_vote [1] 0])) = None"
    using QuorumCert_Validate_iff [of toy toy_vs
        "\<lparr>qc_BlockHash = [1], qc_Signatures = map vote_Signature
            [toy_vote [1] 2, toy_vote [1] 1, toy_vote [1] 0]\<rparr>"]
    by (simp add: toy_defs)
  then show ?thesis
    by (simp add: toy_defs QuorumCert_Validate_def newSignature_def MajorityCount_def
        Signature_Verify_def)
qed

section \<open>Validation of blocks and transactions\<close>

lemma toy_qc_valid: "QuorumCert_Validate toy toy_vs (Some toy_qc) = None"
  by (simp add: toy_qc_def toy_defs QuorumCert_Validate_def newSignature_def MajorityCount_def
        Signature_Verify_def)

lemma toy_block_hash: "Block_Sum (sha3_256 toy) (toy_block key) = Returns (blk_Hash (the (data (toy_block key))))"
  by (simp add: toy_block_def Block_Sum_eq Let_def qc_block_hash_def)




text \<open>
  C9. \<open>Block.Validate\<close> does not always return: when the certificate validates, the
  hash is right and the proposer bytes are no public key, \<open>newSignature\<close> fails and the
  nil signature is dereferenced by \<open>sig.PublicKey()\<close> before the error is inspected.
\<close>

theorem Validate_panics_on_malformed_proposer:
  assumes "QuorumCert_Validate c vs q = None"
    and "Block_Sum (sha3_256 c) \<lparr>data = Some d, proposer = p, quorumCert = q\<rparr> = Returns (blk_Hash d)"
    and "\<not> key_ok c (blk_Proposer d)"
  shows "Block_Validate c vs \<lparr>data = Some d, proposer = p, quorumCert = q\<rparr> = Panics"
  using assms by (simp add: Block_Validate_def newSignature_def)


theorem Validate_panics_witness:
  "QuorumCert_Validate toy toy_vs (quorumCert (toy_block [])) = None
   \<and> \<not> key_ok toy []
   \<and> Block_Validate toy toy_vs (toy_block []) = Panics"
proof -
  obtain d where d: "toy_block [] = \<lparr>data = Some d, proposer = Some [], quorumCert = Some toy_qc\<rparr>"
    and p: "blk_Proposer d = []"
    by (simp add: toy_block_def Let_def)
  have h: "Block_Sum (sha3_256 toy) \<lparr>data = Some d, proposer = Some [], quorumCert = Some toy_qc\<rparr> = Returns (blk_Hash d)"
    using toy_block_hash [of "[]"] by (simp add: d)
  have k: "\<not> key_ok toy (blk_Proposer d)" by (simp add: p toy_def)
  have k': "\<not> key_ok toy []" using k by (simp add: p)
  show ?thesis
    using Validate_panics_on_malformed_proposer [OF toy_qc_valid h k] k'
    by (simp add: d toy_qc_valid)
qed


section \<open>The Merkle tree: update, commit and verify\<close>

lemma ceil_log_ge: "h \<le> ceil_log b n h"
proof (induction b n h rule: ceil_log.induct)
  case (1 b n h)
  show ?case
  proof (cases "b < 2 \<or> n \<le> b ^ h")
    case True
    then show ?thesis by (simp add: ceil_log.simps)
  next
    case False
    then have "ceil_log b n h = ceil_log b n (Suc h)" by (subst ceil_log.simps) simp
    with 1 [OF False] show ?thesis by simp
  qed
qed

lemma ceil_log_bound: "2 \<le> b \<Longrightarrow> n \<le> b ^ ceil_log b n h"
proof (induction b n h rule: ceil_log.induct)
  case (1 b n h)
  show ?case
  proof (cases "n \<le> b ^ h")
    case True
    then show ?thesis by (simp add: ceil_log.simps)
  next
    case False
    with 1 have *: "\<not> (b < 2 \<or> n \<le> b ^ h)" by simp
    then have "ceil_log b n h = ceil_log b n (Suc h)" by (subst ceil_log.simps) simp
    with 1(1) [OF *] 1(2) show ?thesis by simp
  qed
qed

lemma tree_height_bound: "2 \<le> b \<Longrightarrow> n \<le> b ^ tree_height b n"
  by (simp add: tree_height_def ceil_log_bound)

lemma tree_height_pos: "2 \<le> b \<Longrightarrow> 0 < tree_height b n"
proof (cases "1 < n")
  case True
  assume b: "2 \<le> b"
  from True have "\<not> (b < 2 \<or> n \<le> b ^ 0)" using b by simp
  then have "ceil_log b n 0 = ceil_log b n (Suc 0)" by (subst ceil_log.simps) simp
  then show ?thesis using ceil_log_ge [of "Suc 0" b n] True by (simp add: tree_height_def)
next
  case False
  then show ?thesis by (simp add: tree_height_def)
qed

lemma childData_agrees:
  assumes "agrees st L dirty"
  shows "childData st L dirty c = stored st L c"
proof (cases "lookup_last dirty c")
  case None
  then show ?thesis by (simp add: childData_def stored_def GetNode_def)
next
  case (Some d)
  then have "(c, d) \<in> set dirty"
    unfolding lookup_last_def by (auto dest: map_of_SomeD)
  with assms have "nodes st (L, c) = Some d" unfolding agrees_def by fastforce
  with Some show ?thesis by (simp add: childData_def stored_def)
qed

lemma parentData_agrees:
  assumes "agrees st L dirty"
  shows "parentData t st L dirty p = hashFunc t (concat (map (stored st L) (children t p)))"
proof -
  have "childData st L dirty = stored st L"
    using childData_agrees [OF assms] by (intro ext)
  then show ?thesis by (simp add: parentData_def children_def)
qed

lemma upperLevel_fst: "fst ` set (upperLevel t st L dirty) = (\<lambda>e. fst e div bf t) ` set dirty"
  by (force simp: upperLevel_def image_iff)

lemma upperLevel_distinct: "distinct (map fst (upperLevel t st L dirty))"
  by (simp add: upperLevel_def o_def)

lemma upperLevel_empty: "upperLevel t st L dirty = [] \<longleftrightarrow> dirty = []"
  by (simp add: upperLevel_def)

lemma upperLevel_agrees:
  assumes inv: "tree_inv t st" and ag: "agrees st L dirty" and L: "L < height st"
  shows "agrees st (Suc L) (upperLevel t st L dirty)"
  unfolding agrees_def
proof
  fix e assume "e \<in> set (upperLevel t st L dirty)"
  then obtain p where e: "e = (p, parentData t st L dirty p)"
    and p: "p \<in> (\<lambda>e. fst e div bf t) ` set dirty"
    by (auto simp: upperLevel_def)
  then obtain x where x: "x \<in> set dirty" and px: "p = fst x div bf t" by auto
  from ag x have "nodes st (L, fst x) \<noteq> None" unfolding agrees_def by auto
  with inv L have "nodes st (Suc L, p) =
      Some (hashFunc t (concat (map (stored st L) (children t p))))"
    unfolding tree_inv_def px by blast
  then show "nodes st (Suc L, fst e) = Some (snd e)"
    by (simp add: e parentData_agrees [OF ag])
qed

lemma single_zero:
  assumes "dirty \<noteq> []" "distinct (map fst dirty)" "\<forall>e \<in> set dirty. fst e = 0"
  shows "length dirty = 1 \<and> fst (hd dirty) = 0"
proof -
  have "set (map fst dirty) = {0}" using assms(1,3) by (cases dirty) auto
  then have "card (set (map fst dirty)) = 1" by simp
  then have "length (map fst dirty) = 1" using assms(2) distinct_card by metis
  with assms show ?thesis by (cases dirty) auto
qed

lemma updateLevels_reaches_root:
  assumes inv: "tree_inv t st"
  shows "dirty \<noteq> [] \<Longrightarrow> agrees st L dirty \<Longrightarrow> L \<le> height st \<Longrightarrow>
     \<forall>e \<in> set dirty. fst e < bf t ^ (height st - L) \<Longrightarrow>
     (0 < L \<longrightarrow> distinct (map fst dirty)) \<Longrightarrow> 0 < height st \<Longrightarrow>
     \<exists>bs d. updateLevels t st (height st) L dirty = (bs, Some \<lparr>Position = (height st, 0), Data = d\<rparr>)
        \<and> nodes st (height st, 0) = Some d"
proof (induction "height st - L" arbitrary: L dirty)
  case 0
  from inv have b2: "2 \<le> bf t" by (simp add: tree_inv_def)
  from 0 have L: "L = height st" by simp
  with 0 have z: "\<forall>e \<in> set dirty. fst e = 0" by simp
  from 0 L have di: "distinct (map fst dirty)" by simp
  have s: "length dirty = 1 \<and> fst (hd dirty) = 0"
    by (rule single_zero [OF \<open>dirty \<noteq> []\<close> di z])
  then obtain d where d: "dirty = [(0, d)]" by (cases dirty) (auto simp: prod_eq_iff)
  have "nodes st (height st, 0) = Some d" using 0(3) unfolding agrees_def d L by simp
  moreover have "updateLevels t st (height st) L dirty = ([], Some \<lparr>Position = (height st, 0), Data = d\<rparr>)"
    using b2 by (subst updateLevels.simps) (simp add: d L)
  ultimately show ?case by simp
next
  case (Suc k)
  from inv have b2: "2 \<le> bf t" by (simp add: tree_inv_def)
  from Suc have L: "L < height st" by simp
  let ?up = "upperLevel t st L dirty"
  have ne: "?up \<noteq> []" using Suc.prems(1) by (simp add: upperLevel_empty)
  have ag: "agrees st (Suc L) ?up" by (rule upperLevel_agrees [OF inv Suc.prems(2) L])
  have bd: "\<forall>e \<in> set ?up. fst e < bf t ^ (height st - Suc L)"
  proof
    fix e assume "e \<in> set ?up"
    then have "fst e \<in> (\<lambda>e. fst e div bf t) ` set dirty" using upperLevel_fst by blast
    then obtain x where x: "x \<in> set dirty" and e: "fst e = fst x div bf t" by auto
    from Suc.prems(4) x have "fst x < bf t ^ (height st - L)" by blast
    also have "height st - L = Suc (height st - Suc L)" using L by simp
    finally have "fst x < bf t * bf t ^ (height st - Suc L)" by simp
    then show "fst e < bf t ^ (height st - Suc L)"
      unfolding e using b2 by (simp add: less_mult_imp_div_less mult.commute)
  qed
  have k: "k = height st - Suc L" using Suc.hyps(2) by simp
  from Suc.hyps(1) [OF k ne ag _ bd _ Suc.prems(6)] L
  obtain bs d where r: "updateLevels t st (height st) (Suc L) ?up =
        (bs, Some \<lparr>Position = (height st, 0), Data = d\<rparr>)"
    and n: "nodes st (height st, 0) = Some d"
    by (auto simp: upperLevel_distinct)
  have "updateLevels t st (height st) L dirty = (rowNodes (Suc L) ?up @ bs, Some \<lparr>Position = (height st, 0), Data = d\<rparr>)"
    using b2 L Suc.prems(1) by (subst updateLevels.simps) (simp add: r)
  with n show ?case by simp
qed

lemma Verify_committed_leaves:
  assumes inv: "tree_inv t st" and ne: "leaves \<noteq> []"
    and lv: "\<forall>n \<in> set leaves. fst (Position n) = 0 \<and> snd (Position n) < leafCount st \<and>
        nodes st (Position n) = Some (Data n)"
  shows "Tree_Verify t st leaves"
proof -
  from inv have b2: "2 \<le> bf t" by (simp add: tree_inv_def)
  from ne obtain x where "x \<in> set leaves" by (cases leaves) auto
  with lv have "nodes st (Position x) \<noteq> None" by auto
  then have "nodes st \<noteq> Map.empty" by auto
  with inv have h: "height st = tree_height (bf t) (leafCount st)" by (simp add: tree_inv_def)
  have hp: "0 < height st" unfolding h by (rule tree_height_pos [OF b2])
  have lc: "leafCount st \<le> bf t ^ height st" unfolding h by (rule tree_height_bound [OF b2])
  have ag: "agrees st 0 (leafRow leaves)"
    unfolding agrees_def leafRow_def using lv by (auto simp: prod_eq_iff) (metis prod.collapse)
  have bd: "\<forall>e \<in> set (leafRow leaves). fst e < bf t ^ (height st - 0)"
    unfolding leafRow_def using lv lc by auto
  have lr: "leafRow leaves \<noteq> []" using ne by (simp add: leafRow_def)
  from updateLevels_reaches_root [OF inv lr ag _ bd _ hp]
  obtain bs d where r: "updateLevels t st (height st) 0 (leafRow leaves) =
        (bs, Some \<lparr>Position = (height st, 0), Data = d\<rparr>)"
    and n: "nodes st (height st, 0) = Some d" by auto
  have nb: "\<not> list_ex (\<lambda>n. 0 < fst (Position n) \<or> leafCount st \<le> snd (Position n)) leaves"
    using lv by (auto simp: list_ex_iff)
  show ?thesis
    using ne nb n r
    by (simp add: Tree_Verify_def Tree_Root_def GetNode_def Tree_Update_def h [symmetric] Let_def)
qed

lemma foldl_nodes:
  "foldl (\<lambda>m n. m(Position n \<mapsto> Data n)) m ns p =
     (case lookupNodes ns p of Some d \<Rightarrow> Some d | None \<Rightarrow> m p)"
  by (induction ns rule: rev_induct) (simp_all add: lookupNodes_def)

lemma lookupNodes_append:
  "lookupNodes (a @ b) p = (case lookupNodes b p of Some d \<Rightarrow> Some d | None \<Rightarrow> lookupNodes a p)"
  by (simp add: lookupNodes_def map_add_def split: option.split)

lemma lookupNodes_rowNodes:
  "lookupNodes (rowNodes k r) (l, i) = (if k = l then lookup_last r i else None)"
  by (induction r rule: rev_induct) (auto simp: lookupNodes_def rowNodes_def lookup_last_def)

lemma lookupNodes_rows:
  "distinct ks \<Longrightarrow> lookupNodes (concat (map (\<lambda>k. rowNodes k (f k)) ks)) (l, i) =
     (if l \<in> set ks then lookup_last (f l) i else None)"
proof (induction ks)
  case Nil
  then show ?case by (simp add: lookupNodes_def)
next
  case (Cons k ks)
  then show ?case
    by (auto simp: lookupNodes_append lookupNodes_rowNodes split: option.split)
qed

lemma lookupNodes_leaves:
  "\<forall>x \<in> set leaves. fst (Position x) = 0 \<Longrightarrow>
   lookupNodes leaves (l, i) = (if l = 0 then lookup_last (leafRow leaves) i else None)"
proof (induction leaves rule: rev_induct)
  case Nil
  then show ?case by (simp add: lookupNodes_def leafRow_def lookup_last_def)
next
  case (snoc x xs)
  then show ?case
    by (auto simp: lookupNodes_def leafRow_def lookup_last_def prod_eq_iff)
qed

lemma rowAt_fst: "fst ` set (rowAt t st r L) = (\<lambda>e. fst e div bf t ^ L) ` set r"
proof (induction L)
  case 0
  then show ?case by simp
next
  case (Suc L)
  have "fst ` set (rowAt t st r (Suc L)) = (\<lambda>x. x div bf t) ` fst ` set (rowAt t st r L)"
    by (simp add: upperLevel_fst image_image)
  also have "\<dots> = (\<lambda>x. x div bf t) ` (\<lambda>e. fst e div bf t ^ L) ` set r"
    by (simp only: Suc.IH)
  also have "\<dots> = (\<lambda>e. fst e div bf t ^ Suc L) ` set r"
    by (simp only: image_image power_Suc2 div_mult2_eq)
  finally show ?case .
qed

lemma rowAt_empty: "rowAt t st r L = [] \<longleftrightarrow> r = []"
  by (induction L) (simp_all add: upperLevel_empty)

lemma rowAt_distinct: "0 < L \<Longrightarrow> distinct (map fst (rowAt t st r L))"
  by (cases L) (simp_all add: upperLevel_distinct)

lemma rowAt_bound:
  assumes "\<forall>e \<in> set r. fst e < bf t ^ h" "L \<le> h"
  shows "\<forall>e \<in> set (rowAt t st r L). fst e < bf t ^ (h - L)"
proof
  fix e assume "e \<in> set (rowAt t st r L)"
  then have "fst e \<in> (\<lambda>e. fst e div bf t ^ L) ` set r" using rowAt_fst by blast
  then obtain x where x: "x \<in> set r" and e: "fst e = fst x div bf t ^ L" by auto
  from assms x have "fst x < bf t ^ h" by blast
  also have "h = (h - L) + L" using assms(2) by simp
  finally have "fst x < bf t ^ (h - L) * bf t ^ L" by (simp only: power_add)
  then show "fst e < bf t ^ (h - L)" unfolding e by (rule less_mult_imp_div_less)
qed

lemma updateLevels_rows:
  assumes b2: "2 \<le> bf t" and hp: "0 < h" and ne: "r \<noteq> []"
    and bd: "\<forall>e \<in> set r. fst e < bf t ^ h"
  shows "L \<le> h \<Longrightarrow>
     \<exists>d. updateLevels t st h L (rowAt t st r L) =
       (concat (map (\<lambda>k. rowNodes k (rowAt t st r k)) [Suc L ..< Suc h]),
        Some \<lparr>Position = (h, 0), Data = d\<rparr>)"
proof (induction "h - L" arbitrary: L)
  case 0
  then have L: "L = h" by simp
  have z: "\<forall>e \<in> set (rowAt t st r h). fst e = 0"
    using rowAt_bound [OF bd, of h st] by simp
  have di: "distinct (map fst (rowAt t st r h))" using hp by (simp add: rowAt_distinct)
  have n: "rowAt t st r h \<noteq> []" using ne by (simp add: rowAt_empty)
  from single_zero [OF n di z] obtain d where d: "rowAt t st r h = [(0, d)]"
    by (cases "rowAt t st r h") (auto simp: prod_eq_iff)
  have "updateLevels t st h h (rowAt t st r h) = ([], Some \<lparr>Position = (h, 0), Data = d\<rparr>)"
    using b2 by (subst updateLevels.simps) (simp add: d)
  then show ?case by (simp add: L)
next
  case (Suc k)
  then have L: "L < h" by simp
  have n: "rowAt t st r L \<noteq> []" using ne by (simp add: rowAt_empty)
  have k: "k = h - Suc L" using Suc.hyps(2) by simp
  from Suc.hyps(1) [OF k] L obtain d where
    r: "updateLevels t st h (Suc L) (rowAt t st r (Suc L)) =
       (concat (map (\<lambda>k. rowNodes k (rowAt t st r k)) [Suc (Suc L) ..< Suc h]),
        Some \<lparr>Position = (h, 0), Data = d\<rparr>)" by auto
  have u: "[Suc L ..< Suc h] = Suc L # [Suc (Suc L) ..< Suc h]"
    using L by (simp add: upt_conv_Cons)
  have "updateLevels t st h L (rowAt t st r L) =
       (concat (map (\<lambda>k. rowNodes k (rowAt t st r k)) [Suc L ..< Suc h]),
        Some \<lparr>Position = (h, 0), Data = d\<rparr>)"
    using b2 L n r by (subst updateLevels.simps) (simp add: u del: upt_Suc)
  then show ?case by blast
qed

lemma nodes_after_commit:
  assumes b2: "2 \<le> bf t" and v: "valid_update st leaves n"
  defines "h \<equiv> tree_height (bf t) n"
  defines "st' \<equiv> CommitUpdate (Tree_Update t st leaves n) st"
  shows "nodes st' (l, i) =
     (case (if l \<le> h then lookup_last (rowAt t st (leafRow leaves) l) i else None) of
        Some d \<Rightarrow> Some d | None \<Rightarrow> nodes st (l, i))"
    and "height st' = h" and "leafCount st' = n"
proof -
  let ?r = "leafRow leaves"
  from v have ne: "leaves \<noteq> []" and lv0: "\<forall>x \<in> set leaves. fst (Position x) = 0"
    and lvn: "\<forall>x \<in> set leaves. snd (Position x) < n"
    by (auto simp: valid_update_def list_all_iff)
  have hp: "0 < h" unfolding h_def by (rule tree_height_pos [OF b2])
  have nb: "n \<le> bf t ^ h" unfolding h_def by (rule tree_height_bound [OF b2])
  have rne: "?r \<noteq> []" using ne by (simp add: leafRow_def)
  have bd: "\<forall>e \<in> set ?r. fst e < bf t ^ h" using lvn nb by (auto simp: leafRow_def)
  from updateLevels_rows [OF b2 hp rne bd, of 0 st] obtain d where
    u: "updateLevels t st h 0 ?r =
       (concat (map (\<lambda>k. rowNodes k (rowAt t st ?r k)) [Suc 0 ..< Suc h]),
        Some \<lparr>Position = (h, 0), Data = d\<rparr>)" by auto
  have up: "Tree_Update t st leaves n =
      \<lparr>LeafCount = n, Height = h, Leaves = leaves,
       Branches = concat (map (\<lambda>k. rowNodes k (rowAt t st ?r k)) [Suc 0 ..< Suc h]),
       Root = Some \<lparr>Position = (h, 0), Data = d\<rparr>\<rparr>"
    using ne u by (simp add: Tree_Update_def Let_def h_def)
  show "height st' = h" "leafCount st' = n"
    by (simp_all add: st'_def up CommitUpdate_def)
  have lk: "lookupNodes (leaves @ concat (map (\<lambda>k. rowNodes k (rowAt t st ?r k)) [Suc 0 ..< Suc h])) (l, i)
      = (if l \<le> h then lookup_last (rowAt t st ?r l) i else None)"
  proof (cases l)
    case 0
    then show ?thesis
      using lookupNodes_leaves [OF lv0, of l i]
      by (simp add: lookupNodes_append lookupNodes_rows del: upt_Suc)
  next
    case (Suc l')
    then show ?thesis
      using lookupNodes_leaves [OF lv0, of l i]
      by (auto simp: lookupNodes_append lookupNodes_rows simp del: upt_Suc split: option.split)
  qed
  show "nodes st' (l, i) =
     (case (if l \<le> h then lookup_last (rowAt t st ?r l) i else None) of
        Some d \<Rightarrow> Some d | None \<Rightarrow> nodes st (l, i))"
    unfolding st'_def up CommitUpdate_def
    by (simp only: MapStore.simps UpdateResult.simps foldl_nodes lk)
qed

lemma ceil_log_least: "2 \<le> b \<Longrightarrow> n \<le> b ^ k \<Longrightarrow> h \<le> k \<Longrightarrow> ceil_log b n h \<le> k"
proof (induction b n h rule: ceil_log.induct)
  case (1 b n h)
  show ?case
  proof (cases "n \<le> b ^ h")
    case True
    then show ?thesis using 1(4) by (simp add: ceil_log.simps)
  next
    case False
    with 1(2) have *: "\<not> (b < 2 \<or> n \<le> b ^ h)" by simp
    have "h \<noteq> k" using False 1(3) by auto
    with 1(4) have "Suc h \<le> k" by simp
    from 1(1) [OF * 1(2) 1(3) this] show ?thesis
      using * by (subst ceil_log.simps) simp
  qed
qed

lemma tree_height_mono:
  assumes "2 \<le> b" "n \<le> m"
  shows "tree_height b n \<le> tree_height b m"
proof (cases "1 < n")
  case True
  with assms have m: "1 < m" by simp
  have "m \<le> b ^ ceil_log b m 0" by (rule ceil_log_bound [OF assms(1)])
  with assms(2) have "n \<le> b ^ ceil_log b m 0" by simp
  from ceil_log_least [OF assms(1) this] show ?thesis
    using True m by (simp add: tree_height_def)
next
  case False
  then have "tree_height b n = 1" by (simp add: tree_height_def)
  with tree_height_pos [OF assms(1), of m] show ?thesis by simp
qed

lemma lookup_last_None: "lookup_last row i = None \<longleftrightarrow> i \<notin> fst ` set row"
  by (simp add: lookup_last_def map_of_eq_None_iff)

lemma lookup_last_upperLevel:
  "lookup_last (upperLevel t st L dirty) p =
     (if p \<in> (\<lambda>e. fst e div bf t) ` set dirty then Some (parentData t st L dirty p) else None)"
proof -
  let ?ps = "remdups (map (\<lambda>e. fst e div bf t) dirty)"
  have "lookup_last (upperLevel t st L dirty) p =
      map_of (map (\<lambda>p. (p, parentData t st L dirty p)) (rev ?ps)) p"
    by (simp add: lookup_last_def upperLevel_def rev_map)
  also have "\<dots> = ((Some \<circ> parentData t st L dirty) |` set (rev ?ps)) p"
    by (simp only: map_of_map_restrict)
  finally show ?thesis by (simp add: restrict_map_def)
qed

lemma children_div: "0 < bf t \<Longrightarrow> c \<in> set (children t p) \<Longrightarrow> c div bf t = p"
proof -
  assume b: "0 < bf t" and c: "c \<in> set (children t p)"
  then have "p * bf t \<le> c" "c < p * bf t + bf t" by (simp_all add: children_def)
  then have "p \<le> c div bf t" "c div bf t < Suc p"
    using b by (simp_all add: less_eq_div_iff_mult_less_eq div_less_iff_less_mult)
  then show ?thesis by simp
qed

lemma tree_inv_preserved:
  assumes inv: "tree_inv t st" and v: "valid_update st leaves n"
  shows "tree_inv t (CommitUpdate (Tree_Update t st leaves n) st)"
proof -
  define h' where "h' = tree_height (bf t) n"
  define st' where "st' = CommitUpdate (Tree_Update t st leaves n) st"
  define r where "r = leafRow leaves"
  from inv have b2: "2 \<le> bf t" by (simp add: tree_inv_def)
  then have b0: "0 < bf t" by simp
  from inv have oldr: "\<And>L i. nodes st (L, i) \<noteq> None \<Longrightarrow> L \<le> height st \<and> i < bf t ^ (height st - L)"
    by (simp add: tree_inv_def)
  from inv have oldh: "nodes st \<noteq> Map.empty \<Longrightarrow> height st = tree_height (bf t) (leafCount st)"
    by (simp add: tree_inv_def)
  from inv have oldp: "\<And>L i. L < height st \<Longrightarrow> nodes st (L, i) \<noteq> None \<Longrightarrow>
        nodes st (Suc L, i div bf t) =
          Some (hashFunc t (concat (map (stored st L) (children t (i div bf t)))))"
    by (simp add: tree_inv_def)
  from v have lvn: "\<forall>x \<in> set leaves. snd (Position x) < n" and le: "leafCount st \<le> n"
    and cov: "\<forall>i \<in> set [leafCount st ..< n]. i \<in> (\<lambda>x. snd (Position x)) ` set leaves"
    and lne: "leaves \<noteq> []"
    by (auto simp: valid_update_def list_all_iff)
  have N: "\<And>l i. nodes st' (l, i) =
     (case (if l \<le> h' then lookup_last (rowAt t st r l) i else None) of
        Some d \<Rightarrow> Some d | None \<Rightarrow> nodes st (l, i))"
    and H: "height st' = h'" and C: "leafCount st' = n"
    unfolding st'_def h'_def r_def using nodes_after_commit [OF b2 v] by simp_all
  have nb: "n \<le> bf t ^ h'" unfolding h'_def by (rule tree_height_bound [OF b2])
  have bd: "\<forall>e \<in> set r. fst e < bf t ^ h'" using lvn nb by (auto simp: r_def leafRow_def)
  have mono: "height st \<le> h'" if "nodes st \<noteq> Map.empty"
    unfolding h'_def oldh [OF that] by (rule tree_height_mono [OF b2 le])
  have F1: "stored st' l c = childData st l (rowAt t st r l) c" if "l \<le> h'" for l c
    using that by (simp add: stored_def childData_def GetNode_def N split: option.split)
  have range: "L \<le> h' \<and> i < bf t ^ (h' - L)" if nn: "nodes st' (L, i) \<noteq> None" for L i
  proof (cases "L \<le> h' \<and> lookup_last (rowAt t st r L) i \<noteq> None")
    case True
    then have "i \<in> fst ` set (rowAt t st r L)" by (simp add: lookup_last_None)
    then obtain e where "e \<in> set (rowAt t st r L)" "fst e = i" by auto
    with rowAt_bound [OF bd, of L st] True show ?thesis by auto
  next
    case False
    with nn have old: "nodes st (L, i) \<noteq> None" by (auto simp: N split: if_splits)
    then have ne: "nodes st \<noteq> Map.empty" by auto
    from oldr [OF old] have "L \<le> height st" "i < bf t ^ (height st - L)" by simp_all
    moreover have "bf t ^ (height st - L) \<le> bf t ^ (h' - L)"
      using mono [OF ne] b0 by (intro power_increasing) simp_all
    ultimately show ?thesis using mono [OF ne] by simp
  qed
  have parent: "nodes st' (Suc L, i div bf t) =
          Some (hashFunc t (concat (map (stored st' L) (children t (i div bf t)))))"
    if L: "L < h'" and nn: "nodes st' (L, i) \<noteq> None" for L i
  proof -
    let ?p = "i div bf t"
    let ?row = "rowAt t st r L"
    have sc: "stored st' L = childData st L ?row" using F1 [of L] L by (intro ext) simp
    then have rhs: "hashFunc t (concat (map (stored st' L) (children t ?p))) = parentData t st L ?row ?p"
      by (simp add: parentData_def children_def)
    show ?thesis
    proof (cases "?p \<in> (\<lambda>e. fst e div bf t) ` set ?row")
      case True
      then have "lookup_last (rowAt t st r (Suc L)) ?p = Some (parentData t st L ?row ?p)"
        by (simp add: lookup_last_upperLevel)
      then show ?thesis using L by (simp add: N rhs)
    next
      case False
      then have up: "lookup_last (rowAt t st r (Suc L)) ?p = None"
        by (simp add: lookup_last_upperLevel)
      have clean: "lookup_last ?row c = None" if "c div bf t = ?p" for c
      proof -
        have "c \<notin> fst ` set ?row" using False that by force
        then show ?thesis by (simp add: lookup_last_None)
      qed
      from clean [of i] nn L have old: "nodes st (L, i) \<noteq> None" by (simp add: N)
      then have ne: "nodes st \<noteq> Map.empty" by auto
      have same: "childData st L ?row c = stored st L c" if "c \<in> set (children t ?p)" for c
        using clean [OF children_div [OF b0 that]] by (simp add: childData_def stored_def GetNode_def)
      have lt: "L < height st"
      proof (rule ccontr)
        assume "\<not> L < height st"
        with oldr [OF old] have Lh: "L = height st" and i0: "i = 0" by simp_all
        have "leafCount st \<noteq> n" using L oldh [OF ne] Lh by (auto simp: h'_def)
        with le have "leafCount st < n" by simp
        then have "leafCount st \<in> set [leafCount st ..< n]" by simp
        with cov have "leafCount st \<in> (\<lambda>x. snd (Position x)) ` set leaves" by blast
        then obtain x where x: "x \<in> set leaves" and xi: "snd (Position x) = leafCount st" by auto
        have lb: "leafCount st \<le> bf t ^ L" unfolding Lh oldh [OF ne] by (rule tree_height_bound [OF b2])
        have "bf t ^ L * 1 < bf t ^ L * bf t"
          using b2 by (intro mult_strict_left_mono) simp_all
        then have "bf t ^ L < bf t ^ L * bf t" by (simp only: mult_1_right)
        with lb have "leafCount st < bf t ^ L * bf t" by (rule le_less_trans)
        then have "leafCount st div bf t ^ Suc L = 0" by (simp add: mult.commute)
        moreover have "leafCount st div bf t ^ L \<in> fst ` set ?row"
          unfolding rowAt_fst using x xi by (force simp: r_def leafRow_def)
        ultimately have "0 \<in> (\<lambda>e. fst e div bf t) ` set ?row"
          by (force simp: div_mult2_eq [symmetric] mult.commute)
        with False i0 show False by simp
      qed
      have "nodes st' (Suc L, ?p) = nodes st (Suc L, ?p)" using up by (simp add: N)
      also have "\<dots> = Some (hashFunc t (concat (map (stored st L) (children t ?p))))"
        by (rule oldp [OF lt old])
      also have "map (stored st L) (children t ?p) = map (childData st L ?row) (children t ?p)"
        using same by (intro map_cong) simp_all
      finally show ?thesis by (simp add: sc)
    qed
  qed
  have "tree_inv t st'"
    unfolding tree_inv_def H C using b2 range parent by (auto simp: h'_def)
  then show ?thesis by (simp add: st'_def)
qed

lemma bf_NewTree: "2 \<le> bf (NewTree opts)"
proof (cases "BranchFactor opts < 2")
  case True
  then show ?thesis by (simp add: bf_def NewTree_def)
next
  case False
  then have "2 \<le> BranchFactor opts" by simp
  then have "unat (2 :: 8 word) \<le> unat (BranchFactor opts)" by (simp only: word_le_nat_alt)
  with False show ?thesis by (simp add: bf_def NewTree_def)
qed

lemma committed_tree_inv: "committed t st \<Longrightarrow> tree_inv t st"
proof (induction rule: committed.induct)
  case (committed_empty opts)
  show ?case by (simp add: tree_inv_def NewMapStore_def bf_NewTree)
next
  case (committed_update t st leaves n)
  then show ?case by (simp add: tree_inv_preserved)
qed

lemma concat_differs:
  assumes "distinct cs" "j \<in> set cs" "x \<noteq> g j"
  shows "concat (map (g(j := x)) cs) \<noteq> concat (map g cs)"
proof -
  from assms(2) obtain pre post where cs: "cs = pre @ j # post" by (auto dest: split_list)
  with assms(1) have np: "j \<notin> set pre" "j \<notin> set post" by auto
  have a: "map (g(j := x)) pre = map g pre" using np(1) by (intro map_cong) auto
  have b: "map (g(j := x)) post = map g post" using np(2) by (intro map_cong) auto
  have c: "(g(j := x)) j = x" by simp
  show ?thesis using assms(3) unfolding cs by (simp add: a b c del: fun_upd_apply)
qed

lemma childData_single: "childData st L [(j, x)] = (stored st L)(j := x)"
  by (rule ext) (simp add: childData_def lookup_last_def stored_def GetNode_def)

lemma in_children: "0 < bf t \<Longrightarrow> j \<in> set (children t (j div bf t))"
proof -
  assume b: "0 < bf t"
  have "j div bf t * bf t \<le> j" by simp
  moreover have "j < j div bf t * bf t + bf t"
    using b by (metis add.commute div_mult_mod_eq add_less_cancel_left mod_less_divisor)
  ultimately show ?thesis by (simp add: children_def)
qed

lemma upperLevel_differs:
  assumes inv: "tree_inv t st" and inj: "inj (hashFunc t)" and L: "L < height st"
    and n: "nodes st (L, j) = Some y" and xy: "x \<noteq> y"
  shows "\<exists>x' y'. upperLevel t st L [(j, x)] = [(j div bf t, x')] \<and>
     nodes st (Suc L, j div bf t) = Some y' \<and> x' \<noteq> y'"
proof -
  from inv have b2: "2 \<le> bf t" by (simp add: tree_inv_def)
  then have b0: "0 < bf t" by simp
  let ?p = "j div bf t"
  let ?x' = "parentData t st L [(j, x)] ?p"
  let ?y' = "hashFunc t (concat (map (stored st L) (children t ?p)))"
  have u: "upperLevel t st L [(j, x)] = [(?p, ?x')]" by (simp add: upperLevel_def)
  have s: "nodes st (Suc L, ?p) = Some ?y'"
    using inv L n by (simp add: tree_inv_def)
  have "stored st L j = y" using n by (simp add: stored_def)
  with xy have "x \<noteq> stored st L j" by simp
  have "distinct (children t ?p)" by (simp add: children_def)
  from concat_differs [of "children t ?p" j x "stored st L", OF this in_children [OF b0] \<open>x \<noteq> stored st L j\<close>]
  have "concat (map ((stored st L)(j := x)) (children t ?p)) \<noteq> concat (map (stored st L) (children t ?p))" .
  then have "?x' \<noteq> ?y'"
    using inj by (auto simp: parentData_def childData_single children_def dest: injD)
  with u s show ?thesis by blast
qed

lemma updateLevels_altered:
  assumes inv: "tree_inv t st" and inj: "inj (hashFunc t)" and hp: "0 < height st"
  shows "L \<le> height st \<Longrightarrow> nodes st (L, j) = Some y \<Longrightarrow> x \<noteq> y \<Longrightarrow>
     \<exists>bs x' y'. updateLevels t st (height st) L [(j, x)] =
         (bs, Some \<lparr>Position = (height st, 0), Data = x'\<rparr>) \<and>
       nodes st (height st, 0) = Some y' \<and> x' \<noteq> y'"
proof (induction "height st - L" arbitrary: L j x y)
  case 0
  from inv have b2: "2 \<le> bf t" by (simp add: tree_inv_def)
  from 0 have L: "L = height st" by simp
  from inv 0(3) have "j < bf t ^ (height st - L)" by (simp add: tree_inv_def)
  then have j: "j = 0" by (simp add: L)
  have "updateLevels t st (height st) (height st) [(0, x)] =
      ([], Some \<lparr>Position = (height st, 0), Data = x\<rparr>)"
    using b2 by (subst updateLevels.simps) simp
  with 0 show ?case by (auto simp: L j)
next
  case (Suc k)
  from inv have b2: "2 \<le> bf t" by (simp add: tree_inv_def)
  from Suc have L: "L < height st" by simp
  from upperLevel_differs [OF inv inj L Suc.prems(2) Suc.prems(3)]
  obtain x' y' where u: "upperLevel t st L [(j, x)] = [(j div bf t, x')]"
    and n: "nodes st (Suc L, j div bf t) = Some y'" and d: "x' \<noteq> y'" by blast
  have k: "k = height st - Suc L" using Suc.hyps(2) by simp
  from Suc.hyps(1) [OF k _ n d] L
  obtain bs x'' y'' where r: "updateLevels t st (height st) (Suc L) [(j div bf t, x')] =
         (bs, Some \<lparr>Position = (height st, 0), Data = x''\<rparr>)"
    and n': "nodes st (height st, 0) = Some y''" and d': "x'' \<noteq> y''" by auto
  have "updateLevels t st (height st) L [(j, x)] =
      (rowNodes (Suc L) [(j div bf t, x')] @ bs, Some \<lparr>Position = (height st, 0), Data = x''\<rparr>)"
    using b2 L by (subst updateLevels.simps) (simp add: u r)
  with n' d' show ?case by blast
qed

lemma Verify_altered_leaf:
  assumes inv: "tree_inv t st" and inj: "inj (hashFunc t)"
    and i: "i < leafCount st" and n: "nodes st (0, i) = Some d0" and d: "d \<noteq> d0"
  shows "\<not> Tree_Verify t st [\<lparr>Position = (0, i), Data = d\<rparr>]"
proof -
  from inv have b2: "2 \<le> bf t" by (simp add: tree_inv_def)
  from n have "nodes st \<noteq> Map.empty" by auto
  with inv have h: "height st = tree_height (bf t) (leafCount st)" by (simp add: tree_inv_def)
  have hp: "0 < height st" unfolding h by (rule tree_height_pos [OF b2])
  from updateLevels_altered [OF inv inj hp _ n d]
  obtain bs x' y' where r: "updateLevels t st (height st) 0 [(i, d)] =
         (bs, Some \<lparr>Position = (height st, 0), Data = x'\<rparr>)"
    and n': "nodes st (height st, 0) = Some y'" and d': "x' \<noteq> y'" by auto
  show ?thesis
    using r n' d'
    by (simp add: Tree_Verify_def Tree_Root_def GetNode_def Tree_Update_def h [symmetric]
        Let_def leafRow_def)
qed

text \<open>
  Altered leaves, in general. Going up one level, the parents of the differing nodes
  differ again when exactly one node differs, or when the digests have one length and
  each node has the length of the stored one.
\<close>

lemma inj_second_preimage_free: "inj (hashFunc t) \<Longrightarrow> second_preimage_free t st"
  by (auto simp: second_preimage_free_def dest: injD)

lemma childData_outside: "i \<notin> fst ` set dirty \<Longrightarrow> childData st L dirty i = stored st L i"
proof -
  assume "i \<notin> fst ` set dirty"
  then have "lookup_last dirty i = None" by (simp add: lookup_last_None)
  then show ?thesis by (simp add: childData_def stored_def GetNode_def)
qed

lemma differing_subset: "differing st L dirty \<subseteq> fst ` set dirty"
  using childData_outside [of _ dirty st L] by (auto simp: differing_def)

lemma childData_upperLevel:
  "childData st (Suc L) (upperLevel t st L dirty) p =
     (if p \<in> (\<lambda>e. fst e div bf t) ` set dirty
      then hashFunc t (concat (map (childData st L dirty) (children t p)))
      else stored st (Suc L) p)"
  by (simp add: childData_def lookup_last_upperLevel stored_def GetNode_def parentData_def
      children_def)

lemma concat_same_length:
  "\<forall>c \<in> set cs. length (f c) = length (g c) \<Longrightarrow>
   concat (map f cs) = concat (map g cs) \<longleftrightarrow> (\<forall>c \<in> set cs. f c = g c)"
  by (induction cs) simp_all

lemma upperLevel_altered:
  assumes inv: "tree_inv t st" and sp: "second_preimage_free t st" and L: "L < height st"
    and sto: "\<forall>e \<in> set dirty. nodes st (L, fst e) \<noteq> None"
    and ne: "differing st L dirty \<noteq> {}"
    and alt: "(\<exists>j. differing st L dirty = {j}) \<or>
        (fixed_length (hashFunc t) \<and>
         (\<forall>i. length (childData st L dirty i) = length (stored st L i)))"
  shows "\<forall>e \<in> set (upperLevel t st L dirty). nodes st (Suc L, fst e) \<noteq> None"
    and "differing st (Suc L) (upperLevel t st L dirty) \<noteq> {}"
    and "(\<exists>j. differing st (Suc L) (upperLevel t st L dirty) = {j}) \<or>
        (fixed_length (hashFunc t) \<and>
         (\<forall>i. length (childData st (Suc L) (upperLevel t st L dirty) i) =
              length (stored st (Suc L) i)))"
proof -
  from inv have b2: "2 \<le> bf t" by (simp add: tree_inv_def)
  then have b0: "0 < bf t" by simp
  let ?cd = "childData st L dirty" and ?sd = "stored st L"
  let ?P = "(\<lambda>e. fst e div bf t) ` set dirty"
  let ?up = "upperLevel t st L dirty"
  have par: "nodes st (Suc L, p) = Some (hashFunc t (concat (map ?sd (children t p))))"
    and spp: "\<And>x. hashFunc t x = hashFunc t (concat (map ?sd (children t p))) \<Longrightarrow>
        x = concat (map ?sd (children t p))"
    if "p \<in> ?P" for p
  proof -
    from that obtain e where e: "e \<in> set dirty" and p: "p = fst e div bf t" by auto
    from sto e have n: "nodes st (L, fst e) \<noteq> None" by blast
    with inv L show "nodes st (Suc L, p) = Some (hashFunc t (concat (map ?sd (children t p))))"
      unfolding tree_inv_def p by blast
    from sp L n show "\<And>x. hashFunc t x = hashFunc t (concat (map ?sd (children t p))) \<Longrightarrow>
        x = concat (map ?sd (children t p))"
      unfolding second_preimage_free_def p by blast
  qed
  have st': "stored st (Suc L) p = hashFunc t (concat (map ?sd (children t p)))"
    if "p \<in> ?P" for p
    using par [OF that] by (simp add: stored_def)
  have diff_iff: "p \<in> differing st (Suc L) ?up \<longleftrightarrow>
      p \<in> ?P \<and> concat (map ?cd (children t p)) \<noteq> concat (map ?sd (children t p))" for p
  proof (cases "p \<in> ?P")
    case True
    then show ?thesis
      using spp [OF True, of "concat (map ?cd (children t p))"]
      by (auto simp: differing_def childData_upperLevel st' [OF True])
  next
    case False
    then show ?thesis by (simp add: differing_def childData_upperLevel)
  qed
  show "\<forall>e \<in> set ?up. nodes st (Suc L, fst e) \<noteq> None"
  proof
    fix e assume "e \<in> set ?up"
    then have "fst e \<in> ?P" using upperLevel_fst [of t st L dirty] by blast
    from par [OF this] show "nodes st (Suc L, fst e) \<noteq> None" by simp
  qed
  have inP: "j div bf t \<in> ?P" if "j \<in> differing st L dirty" for j
  proof -
    from that differing_subset have "j \<in> fst ` set dirty" by blast
    then show ?thesis by auto
  qed
  from alt show "(\<exists>j. differing st (Suc L) ?up = {j}) \<or>
        (fixed_length (hashFunc t) \<and>
         (\<forall>i. length (childData st (Suc L) ?up i) = length (stored st (Suc L) i)))"
  proof
    assume "\<exists>j. differing st L dirty = {j}"
    then obtain j where D: "differing st L dirty = {j}" by blast
    then have cdj: "?cd j \<noteq> ?sd j" and oth: "\<And>i. i \<noteq> j \<Longrightarrow> ?cd i = ?sd i"
      by (auto simp: differing_def)
    have cd_eq: "?cd = ?sd(j := ?cd j)" using oth by (intro ext) simp
    have di: "distinct (children t (j div bf t))" by (simp add: children_def)
    from concat_differs [of "children t (j div bf t)" j "?cd j" ?sd, OF di in_children [OF b0] cdj]
    have "concat (map ?cd (children t (j div bf t))) \<noteq> concat (map ?sd (children t (j div bf t)))"
      by (simp only: cd_eq [symmetric] not_False_eq_True)
    moreover have "j div bf t \<in> ?P" using inP D by simp
    ultimately have a: "j div bf t \<in> differing st (Suc L) ?up" by (simp add: diff_iff)
    have b: "p = j div bf t" if "p \<in> differing st (Suc L) ?up" for p
    proof (rule ccontr)
      assume np: "p \<noteq> j div bf t"
      have "map ?cd (children t p) = map ?sd (children t p)"
      proof (rule map_cong [OF refl])
        fix c assume "c \<in> set (children t p)"
        then have "c div bf t = p" by (rule children_div [OF b0])
        with np have "c \<noteq> j" by auto
        then show "?cd c = ?sd c" by (rule oth)
      qed
      with that show False by (simp add: diff_iff)
    qed
    from a b have "differing st (Suc L) ?up = {j div bf t}" by blast
    then show ?thesis by blast
  next
    assume fl: "fixed_length (hashFunc t) \<and>
         (\<forall>i. length (childData st L dirty i) = length (stored st L i))"
    then have "\<forall>i. length (childData st (Suc L) ?up i) = length (stored st (Suc L) i)"
      using st' by (auto simp: childData_upperLevel fixed_length_def)
    with fl show ?thesis by blast
  qed
  from ne obtain j where j: "j \<in> differing st L dirty" by blast
  then have cdj: "?cd j \<noteq> ?sd j" by (simp add: differing_def)
  have "concat (map ?cd (children t (j div bf t))) \<noteq> concat (map ?sd (children t (j div bf t)))"
    using alt
  proof
    assume "\<exists>j. differing st L dirty = {j}"
    with j have D: "differing st L dirty = {j}" by auto
    then have oth: "\<And>i. i \<noteq> j \<Longrightarrow> ?cd i = ?sd i" by (auto simp: differing_def)
    have cd_eq: "?cd = ?sd(j := ?cd j)" using oth by (intro ext) simp
    have di: "distinct (children t (j div bf t))" by (simp add: children_def)
    from concat_differs [of "children t (j div bf t)" j "?cd j" ?sd, OF di in_children [OF b0] cdj]
    show ?thesis by (simp only: cd_eq [symmetric] not_False_eq_True)
  next
    assume fl: "fixed_length (hashFunc t) \<and>
         (\<forall>i. length (childData st L dirty i) = length (stored st L i))"
    then have "\<forall>c \<in> set (children t (j div bf t)). length (?cd c) = length (?sd c)" by simp
    from concat_same_length [OF this] cdj in_children [OF b0, of j] show ?thesis by blast
  qed
  with inP [OF j] have "j div bf t \<in> differing st (Suc L) ?up" by (simp add: diff_iff)
  then show "differing st (Suc L) ?up \<noteq> {}" by blast
qed

lemma updateLevels_altered_rows:
  assumes inv: "tree_inv t st" and sp: "second_preimage_free t st" and hp: "0 < height st"
  shows "L \<le> height st \<Longrightarrow> dirty \<noteq> [] \<Longrightarrow>
     \<forall>e \<in> set dirty. nodes st (L, fst e) \<noteq> None \<Longrightarrow>
     (0 < L \<longrightarrow> distinct (map fst dirty)) \<Longrightarrow>
     differing st L dirty \<noteq> {} \<Longrightarrow>
     (\<exists>j. differing st L dirty = {j}) \<or>
        (fixed_length (hashFunc t) \<and>
         (\<forall>i. length (childData st L dirty i) = length (stored st L i))) \<Longrightarrow>
     \<exists>bs x' y'. updateLevels t st (height st) L dirty =
         (bs, Some \<lparr>Position = (height st, 0), Data = x'\<rparr>) \<and>
       nodes st (height st, 0) = Some y' \<and> x' \<noteq> y'"
proof (induction "height st - L" arbitrary: L dirty)
  case 0
  from inv have b2: "2 \<le> bf t" by (simp add: tree_inv_def)
  from 0 have L: "L = height st" by simp
  have z: "\<forall>e \<in> set dirty. fst e = 0"
  proof
    fix e assume "e \<in> set dirty"
    with 0(4) have "nodes st (L, fst e) \<noteq> None" by blast
    with inv have "fst e < bf t ^ (height st - L)" by (simp add: tree_inv_def)
    then show "fst e = 0" by (simp add: L)
  qed
  from 0(5) hp L have di: "distinct (map fst dirty)" by simp
  from single_zero [OF 0(3) di z] obtain x where d: "dirty = [(0, x)]"
    by (cases dirty) (auto simp: prod_eq_iff)
  from 0(6) differing_subset [of st L dirty] have "0 \<in> differing st L dirty"
    by (auto simp: d)
  then have x: "x \<noteq> stored st L 0" by (simp add: differing_def d childData_single)
  from 0(4) obtain y where y: "nodes st (L, 0) = Some y" by (auto simp: d)
  with x have xy: "x \<noteq> y" by (simp add: stored_def)
  have "updateLevels t st (height st) (height st) [(0, x)] =
      ([], Some \<lparr>Position = (height st, 0), Data = x\<rparr>)"
    using b2 by (subst updateLevels.simps) simp
  with y xy show ?case by (auto simp: L d)
next
  case (Suc k)
  from inv have b2: "2 \<le> bf t" by (simp add: tree_inv_def)
  from Suc have L: "L < height st" by simp
  let ?up = "upperLevel t st L dirty"
  note step = upperLevel_altered [OF inv sp L Suc.prems(3) Suc.prems(5) Suc.prems(6)]
  have ne: "?up \<noteq> []" using Suc.prems(2) by (simp add: upperLevel_empty)
  have k: "k = height st - Suc L" using Suc.hyps(2) by simp
  have di: "0 < Suc L \<longrightarrow> distinct (map fst ?up)" by (simp add: upperLevel_distinct)
  from Suc.hyps(1) [OF k _ ne step(1) di step(2) step(3)] L
  obtain bs x' y' where r: "updateLevels t st (height st) (Suc L) ?up =
         (bs, Some \<lparr>Position = (height st, 0), Data = x'\<rparr>)"
    and n': "nodes st (height st, 0) = Some y'" and d': "x' \<noteq> y'" by auto
  have "updateLevels t st (height st) L dirty =
      (rowNodes (Suc L) ?up @ bs, Some \<lparr>Position = (height st, 0), Data = x'\<rparr>)"
    using b2 Suc.prems(2) L by (subst updateLevels.simps) (simp add: r)
  with n' d' show ?case by blast
qed

lemma committed_leaves_stored:
  "committed t st \<Longrightarrow> i < leafCount st \<Longrightarrow> nodes st (0, i) \<noteq> None"
proof (induction arbitrary: i rule: committed.induct)
  case (committed_empty opts)
  then show ?case by (simp add: NewMapStore_def)
next
  case (committed_update t st leaves n)
  from committed_update.hyps(1) have b2: "2 \<le> bf t"
    using committed_tree_inv by (auto simp: tree_inv_def)
  note v = committed_update.hyps(2)
  let ?st' = "CommitUpdate (Tree_Update t st leaves n) st"
  have n': "nodes ?st' (0, i) =
      (case lookup_last (leafRow leaves) i of Some d \<Rightarrow> Some d | None \<Rightarrow> nodes st (0, i))"
    using nodes_after_commit(1) [OF b2 v, of 0 i] by simp
  have lc: "leafCount ?st' = n" by (rule nodes_after_commit(3) [OF b2 v])
  show ?case
  proof (cases "i < leafCount st")
    case True
    from committed_update.IH [OF True] show ?thesis by (simp add: n' split: option.split)
  next
    case False
    with committed_update.prems lc have "i \<in> set [leafCount st ..< n]" by simp
    with v have "i \<in> (\<lambda>x. snd (Position x)) ` set leaves"
      by (simp add: valid_update_def list_all_iff)
    then have "i \<in> fst ` set (leafRow leaves)" by (force simp: leafRow_def)
    then have "lookup_last (leafRow leaves) i \<noteq> None" by (simp add: lookup_last_None)
    then show ?thesis by (auto simp: n')
  qed
qed

lemma alteredLeaves_differing:
  assumes sto: "\<forall>n \<in> set leaves. nodes st (0, snd (Position n)) \<noteq> None"
  shows "set (alteredLeaves st leaves) = differing st 0 (leafRow leaves)"
proof -
  have idx: "fst ` set (leafRow leaves) = (\<lambda>n. snd (Position n)) ` set leaves"
    by (force simp: leafRow_def)
  have "i \<in> set (alteredLeaves st leaves) \<longleftrightarrow> i \<in> differing st 0 (leafRow leaves)" for i
  proof (cases "i \<in> fst ` set (leafRow leaves)")
    case True
    then obtain d where d: "lookup_last (leafRow leaves) i = Some d"
      using lookup_last_None [of "leafRow leaves" i] by auto
    from True idx sto obtain d0 where d0: "nodes st (0, i) = Some d0" by auto
    from True idx show ?thesis
      by (simp add: alteredLeaves_def differing_def childData_def stored_def d d0)
  next
    case False
    with idx have "i \<notin> set (alteredLeaves st leaves)" by (simp add: alteredLeaves_def)
    moreover from False differing_subset have "i \<notin> differing st 0 (leafRow leaves)" by blast
    ultimately show ?thesis by simp
  qed
  then show ?thesis by blast
qed

lemma Verify_altered_leaves:
  assumes com: "committed t st" and sp: "second_preimage_free t st"
    and ne: "alteredLeaves st leaves \<noteq> []"
    and alt: "length (alteredLeaves st leaves) = 1 \<or>
        (fixed_length (hashFunc t) \<and>
         (\<forall>n \<in> set leaves. length (Data n) = length (stored st 0 (snd (Position n)))))"
  shows "\<not> Tree_Verify t st leaves"
proof (cases "list_ex (\<lambda>n. 0 < fst (Position n) \<or> leafCount st \<le> snd (Position n)) leaves")
  case True
  then show ?thesis by (simp add: Tree_Verify_def)
next
  case False
  then have lv: "\<forall>n \<in> set leaves. fst (Position n) = 0 \<and> snd (Position n) < leafCount st"
    by (auto simp: list_ex_iff)
  from com have inv: "tree_inv t st" by (rule committed_tree_inv)
  then have b2: "2 \<le> bf t" by (simp add: tree_inv_def)
  from ne have lne: "leaves \<noteq> []" by (auto simp: alteredLeaves_def)
  let ?r = "leafRow leaves"
  have sto: "\<forall>n \<in> set leaves. nodes st (0, snd (Position n)) \<noteq> None"
    using lv committed_leaves_stored [OF com] by blast
  then have sto': "\<forall>e \<in> set ?r. nodes st (0, fst e) \<noteq> None" by (auto simp: leafRow_def)
  from lne obtain x where "x \<in> set leaves" by (cases leaves) auto
  with sto have "nodes st \<noteq> Map.empty" by auto
  with inv have h: "height st = tree_height (bf t) (leafCount st)" by (simp add: tree_inv_def)
  have hp: "0 < height st" unfolding h by (rule tree_height_pos [OF b2])
  note D = alteredLeaves_differing [OF sto]
  have dne: "differing st 0 ?r \<noteq> {}" using ne D by (metis set_empty)
  have dalt: "(\<exists>j. differing st 0 ?r = {j}) \<or>
        (fixed_length (hashFunc t) \<and>
         (\<forall>i. length (childData st 0 ?r i) = length (stored st 0 i)))"
    using alt
  proof
    assume "length (alteredLeaves st leaves) = 1"
    then obtain j where "alteredLeaves st leaves = [j]"
      by (cases "alteredLeaves st leaves") auto
    with D have "differing st 0 ?r = {j}" by simp
    then show ?thesis by blast
  next
    assume fl: "fixed_length (hashFunc t) \<and>
         (\<forall>n \<in> set leaves. length (Data n) = length (stored st 0 (snd (Position n))))"
    have "length (childData st 0 ?r i) = length (stored st 0 i)" for i
    proof (cases "lookup_last ?r i")
      case None
      then show ?thesis by (simp add: childData_def stored_def GetNode_def)
    next
      case (Some d)
      then have "(i, d) \<in> set ?r" unfolding lookup_last_def by (auto dest: map_of_SomeD)
      then obtain n where "n \<in> set leaves" "snd (Position n) = i" "Data n = d"
        by (auto simp: leafRow_def)
      with fl have "length d = length (stored st 0 i)" by auto
      with Some show ?thesis by (simp add: childData_def)
    qed
    with fl show ?thesis by blast
  qed
  have rne: "?r \<noteq> []" using lne by (simp add: leafRow_def)
  from updateLevels_altered_rows [OF inv sp hp _ rne sto' _ dne dalt]
  obtain bs x' y' where r: "updateLevels t st (height st) 0 ?r =
         (bs, Some \<lparr>Position = (height st, 0), Data = x'\<rparr>)"
    and n': "nodes st (height st, 0) = Some y'" and d': "x' \<noteq> y'" by auto
  show ?thesis
    using r n' d' lne
    by (simp add: Tree_Verify_def Tree_Root_def GetNode_def Tree_Update_def h [symmetric]
        Let_def)
qed

lemma bf_test_tree: "bf (test_tree H) = 3" "hashFunc (test_tree H) = H"
  by (simp_all add: test_tree_def NewTree_def bf_def)

lemma h7: "tree_height 3 7 = 2"
  by (simp add: tree_height_def ceil_log.simps)

lemma h10: "tree_height 3 10 = 3"
  by (simp add: tree_height_def ceil_log.simps)

lemma upd1: "Tree_Update (test_tree H) NewMapStore test_leaves 7 =
  \<lparr>LeafCount = 7, Height = 2, Leaves = test_leaves,
   Branches = [\<lparr>Position = (1, 0), Data = H [0, 1, 2]\<rparr>, \<lparr>Position = (1, 1), Data = H [3, 4, 5]\<rparr>,
               \<lparr>Position = (1, 2), Data = H [6]\<rparr>,
               \<lparr>Position = (2, 0), Data = H (H [0, 1, 2] @ H [3, 4, 5] @ H [6])\<rparr>],
   Root = Some \<lparr>Position = (2, 0), Data = H (H [0, 1, 2] @ H [3, 4, 5] @ H [6])\<rparr>\<rparr>"
  apply code_simp
  apply simp
  done

lemma st1_nodes: "card (dom (nodes (test_store1 H))) = 11"
  unfolding test_store1_def upd1 by (simp add: CommitUpdate_def NewMapStore_def test_leaves_def leaf_def NewPosition_def)

lemma st1_root: "map_option Data (Tree_Root (test_tree H) (test_store1 H)) = Some (H (H [0, 1, 2] @ H [3, 4, 5] @ H [6]))"
  unfolding test_store1_def upd1 by (simp add: Tree_Root_def GetNode_def CommitUpdate_def NewMapStore_def test_leaves_def leaf_def NewPosition_def)

lemma upd2: "Tree_Update (test_tree H) (test_store1 H) test_upd 10 =
  \<lparr>LeafCount = 10, Height = 3, Leaves = test_upd,
   Branches = [\<lparr>Position = (1, 0), Data = H [0, 1, 1]\<rparr>, \<lparr>Position = (1, 1), Data = H [3, 4, 1]\<rparr>,
               \<lparr>Position = (1, 2), Data = H [6, 1, 1]\<rparr>, \<lparr>Position = (1, 3), Data = H [1]\<rparr>,
               \<lparr>Position = (2, 0), Data = H (H [0, 1, 1] @ H [3, 4, 1] @ H [6, 1, 1])\<rparr>,
               \<lparr>Position = (2, 1), Data = H (H [1])\<rparr>,
               \<lparr>Position = (3, 0), Data = H (H (H [0, 1, 1] @ H [3, 4, 1] @ H [6, 1, 1]) @ H (H [1]))\<rparr>],
   Root = Some \<lparr>Position = (3, 0), Data = H (H (H [0, 1, 1] @ H [3, 4, 1] @ H [6, 1, 1]) @ H (H [1]))\<rparr>\<rparr>"
  unfolding test_store1_def upd1
  apply code_simp
  apply simp
  done

lemma st2_nodes: "card (dom (nodes (test_store2 H))) = 17"
  unfolding test_store2_def upd2 unfolding test_store1_def upd1
  by (simp add: CommitUpdate_def NewMapStore_def test_leaves_def test_upd_def leaf_def NewPosition_def)

lemma st2_root:
  "map_option Data (Tree_Root (test_tree H) (test_store2 H)) =
     Some (H (H (H [0, 1, 1] @ H [3, 4, 1] @ H [6, 1, 1]) @ H (H [1])))"
  unfolding test_store2_def upd2 unfolding test_store1_def upd1
  by (simp add: Tree_Root_def GetNode_def CommitUpdate_def NewMapStore_def test_leaves_def
      test_upd_def leaf_def NewPosition_def)

text \<open>
  C6. Branch factor 3 and any hash \<open>sha1\<close>: from the empty tree, the update of leaves
  0..6 with data [i] and leaf count 7, committed, leaves exactly 11 stored nodes and the
  root sha1(n10 n11 n12) with n10 = sha1([0,1,2]), n11 = sha1([3,4,5]), n12 = sha1([6]);
  then the update of leaves 2, 5, 7, 8, 9 to data [1] with leaf count 10, committed,
  leaves exactly 17 stored nodes and the root sha1(nn20 nn21) with
  nn20 = sha1(sha1([0,1,1]) sha1([3,4,1]) sha1([6,1,1])), nn21 = sha1(nn13) and
  nn13 = sha1([1]).
\<close>

theorem Update_scenarios:
  "card (dom (nodes (test_store1 sha1))) = 11
   \<and> map_option Data (Tree_Root (test_tree sha1) (test_store1 sha1)) =
       Some (sha1 (sha1 [0, 1, 2] @ sha1 [3, 4, 5] @ sha1 [6]))
   \<and> card (dom (nodes (test_store2 sha1))) = 17
   \<and> map_option Data (Tree_Root (test_tree sha1) (test_store2 sha1)) =
       Some (sha1 (sha1 (sha1 [0, 1, 1] @ sha1 [3, 4, 1] @ sha1 [6, 1, 1]) @ sha1 (sha1 [1])))"
  by (simp only: st1_nodes st1_root st2_nodes st2_root simp_thms)

lemma Verify_refusals:
  "\<not> Tree_Verify t st []"
  "list_ex (\<lambda>n. leafCount st \<le> snd (Position n)) leaves \<Longrightarrow> \<not> Tree_Verify t st leaves"
  "list_ex (\<lambda>n. fst (Position n) \<noteq> 0) leaves \<Longrightarrow> \<not> Tree_Verify t st leaves"
  "Tree_Root t st = None \<Longrightarrow> \<not> Tree_Verify t st leaves"
  by (auto simp: Tree_Verify_def list_ex_iff)

text \<open>
  C7, as the tree has it. \<open>verify\<close> returns false for no leaves, for an input with a
  leaf index at or beyond the leaf count, for an input with a node not at level 0, and
  when the tree has no stored root. For a committed tree (reached from the empty store
  by updates that supply every leaf index they add) it returns true on every non-empty
  list of committed leaves. It returns false on every input in which exactly one of the
  supplied leaves differs from the committed data, for an injective hash; and on every
  input in which some supplied leaf differs and each supplied leaf has the length of the
  committed data, for a hash with digests of one length and no second preimage on the
  tree.
\<close>

theorem Verify_cases:
  "\<not> Tree_Verify t st []
   \<and> (list_ex (\<lambda>n. leafCount st \<le> snd (Position n)) leaves \<longrightarrow> \<not> Tree_Verify t st leaves)
   \<and> (list_ex (\<lambda>n. fst (Position n) \<noteq> 0) leaves \<longrightarrow> \<not> Tree_Verify t st leaves)
   \<and> (Tree_Root t st = None \<longrightarrow> \<not> Tree_Verify t st leaves)
   \<and> (committed t st \<and> leaves \<noteq> [] \<and>
        (\<forall>n \<in> set leaves. fst (Position n) = 0 \<and> snd (Position n) < leafCount st \<and>
            nodes st (Position n) = Some (Data n))
      \<longrightarrow> Tree_Verify t st leaves)
   \<and> (committed t st \<and> inj (hashFunc t) \<and> length (alteredLeaves st leaves) = 1
      \<longrightarrow> \<not> Tree_Verify t st leaves)
   \<and> (committed t st \<and> second_preimage_free t st \<and> fixed_length (hashFunc t) \<and>
        alteredLeaves st leaves \<noteq> [] \<and>
        (\<forall>n \<in> set leaves. length (Data n) = length (stored st 0 (snd (Position n))))
      \<longrightarrow> \<not> Tree_Verify t st leaves)"
proof -
  have one: "\<not> Tree_Verify t st leaves"
    if "committed t st" "inj (hashFunc t)" "length (alteredLeaves st leaves) = 1"
  proof -
    from that(3) have "alteredLeaves st leaves \<noteq> []" by auto
    with that show ?thesis
      by (intro Verify_altered_leaves inj_second_preimage_free) simp_all
  qed
  have many: "\<not> Tree_Verify t st leaves"
    if "committed t st" "second_preimage_free t st" "fixed_length (hashFunc t)"
      "alteredLeaves st leaves \<noteq> []"
      "\<forall>n \<in> set leaves. length (Data n) = length (stored st 0 (snd (Position n)))"
    using that by (intro Verify_altered_leaves) simp_all
  show ?thesis
    using Verify_refusals(1) [where t = t and st = st]
      Verify_refusals(2-4) [where t = t and st = st and leaves = leaves]
      Verify_committed_leaves [of t st leaves] committed_tree_inv [of t st] one many
    by blast
qed

lemma test_store1_committed: "committed (test_tree H) (test_store1 H)"
  unfolding test_store1_def test_tree_def
  by (rule committed_update [OF committed_empty])
    (simp add: valid_update_def test_leaves_def leaf_def NewPosition_def NewMapStore_def upt_rec)

lemma test_store1_nodes:
  "nodes (test_store1 H) =
     [(0, 0) \<mapsto> [0], (0, 1) \<mapsto> [1], (0, 2) \<mapsto> [2], (0, 3) \<mapsto> [3], (0, 4) \<mapsto> [4],
      (0, 5) \<mapsto> [5], (0, 6) \<mapsto> [6], (1, 0) \<mapsto> H [0, 1, 2], (1, 1) \<mapsto> H [3, 4, 5],
      (1, 2) \<mapsto> H [6], (2, 0) \<mapsto> H (H [0, 1, 2] @ H [3, 4, 5] @ H [6])]"
    "leafCount (test_store1 H) = 7" "height (test_store1 H) = 2"
  unfolding test_store1_def upd1
  by (simp_all add: CommitUpdate_def NewMapStore_def test_leaves_def leaf_def NewPosition_def)

lemma toy_inj: "inj (sha3_256 toy)"
  by (auto simp: inj_def toy_def)

lemma byte_hash_free: "second_preimage_free (test_tree byte_hash) (test_store1 byte_hash)"
  unfolding second_preimage_free_def
proof (intro allI impI)
  fix L i x
  let ?t = "test_tree byte_hash" and ?st = "test_store1 byte_hash"
  note n = test_store1_nodes [of byte_hash]
  assume L: "L < height ?st" and s: "nodes ?st (L, i) \<noteq> None"
    and h: "hashFunc ?t x = hashFunc ?t (concat (map (stored ?st L) (children ?t (i div bf ?t))))"
  from s have "(L, i) \<in> {(0, 0), (0, 1), (0, 2), (0, 3), (0, 4), (0, 5), (0, 6), (1, 0), (1, 1),
      (1, 2), (2, 0)}"
    by (simp add: n split: if_splits)
  with L have c: "(L = 0 \<and> i div 3 = 0) \<or> (L = 0 \<and> i div 3 = 1) \<or> (L = 0 \<and> i div 3 = 2) \<or>
      (L = 1 \<and> i div 3 = 0)"
    by (auto simp: n)
  have pre: "concat (map (stored ?st 0) (children ?t 0)) = [0, 1, 2]"
    "concat (map (stored ?st 0) (children ?t (Suc 0))) = [3, 4, 5]"
    "concat (map (stored ?st 0) (children ?t 2)) = [6]"
    "concat (map (stored ?st (Suc 0)) (children ?t 0)) = [1, 2, 3]"
    by (simp_all add: children_def bf_test_tree stored_def n upt_rec byte_hash_def)
  from c h show "x = concat (map (stored ?st L) (children ?t (i div bf ?t)))"
    by (auto simp: bf_test_tree pre) (simp_all add: byte_hash_def split: if_splits)
qed

lemma byte_hash_fixed: "fixed_length byte_hash"
  by (simp add: fixed_length_def byte_hash_def)

text \<open>
  The run of \<open>TestTree_Verify\<close> under the toy digest: all leaves, leaf 2, leaves 1 and
  5 verify; the empty tree, no leaves, a node of level 1, leaf index 7, leaf 1 with
  data [4], and leaf 1 with data [4] beside leaf 5 do not. Under the one-byte hash,
  leaf 1 with data [4] and leaf 5 with data [1] do not verify.
\<close>

theorem Verify_cases_witness:
  "committed (test_tree (sha3_256 toy)) (test_store1 (sha3_256 toy))
   \<and> Tree_Verify (test_tree (sha3_256 toy)) (test_store1 (sha3_256 toy)) test_leaves
   \<and> Tree_Verify (test_tree (sha3_256 toy)) (test_store1 (sha3_256 toy)) [leaf 2 [2]]
   \<and> Tree_Verify (test_tree (sha3_256 toy)) (test_store1 (sha3_256 toy)) [leaf 1 [1], leaf 5 [5]]
   \<and> \<not> Tree_Verify (test_tree (sha3_256 toy)) NewMapStore test_leaves
   \<and> \<not> Tree_Verify (test_tree (sha3_256 toy)) (test_store1 (sha3_256 toy)) []
   \<and> \<not> Tree_Verify (test_tree (sha3_256 toy)) (test_store1 (sha3_256 toy))
         [\<lparr>Position = NewPosition 1 0, Data = [1]\<rparr>]
   \<and> \<not> Tree_Verify (test_tree (sha3_256 toy)) (test_store1 (sha3_256 toy)) [leaf 7 [7]]
   \<and> \<not> Tree_Verify (test_tree (sha3_256 toy)) (test_store1 (sha3_256 toy)) [leaf 1 [4]]
   \<and> \<not> Tree_Verify (test_tree (sha3_256 toy)) (test_store1 (sha3_256 toy))
         [leaf 1 [4], leaf 5 [5]]
   \<and> committed (test_tree byte_hash) (test_store1 byte_hash)
   \<and> second_preimage_free (test_tree byte_hash) (test_store1 byte_hash)
   \<and> fixed_length byte_hash
   \<and> \<not> Tree_Verify (test_tree byte_hash) (test_store1 byte_hash) [leaf 1 [4], leaf 5 [1]]"
proof -
  let ?t = "test_tree (sha3_256 toy)" and ?st = "test_store1 (sha3_256 toy)"
  let ?u = "test_tree byte_hash" and ?su = "test_store1 byte_hash"
  note c = test_store1_committed [of "sha3_256 toy"]
  note n = test_store1_nodes [of "sha3_256 toy"]
  note cu = test_store1_committed [of byte_hash]
  note nu = test_store1_nodes [of byte_hash]
  have 1: "Tree_Verify ?t ?st test_leaves"
    using Verify_cases [of ?t ?st test_leaves] c
    by (simp add: n test_leaves_def leaf_def NewPosition_def)
  have 2: "Tree_Verify ?t ?st [leaf 2 [2]]"
    using Verify_cases [of ?t ?st "[leaf 2 [2]]"] c
    by (simp add: n leaf_def NewPosition_def)
  have 3: "Tree_Verify ?t ?st [leaf 1 [1], leaf 5 [5]]"
    using Verify_cases [of ?t ?st "[leaf 1 [1], leaf 5 [5]]"] c
    by (simp add: n leaf_def NewPosition_def)
  have 4: "\<not> Tree_Verify ?t NewMapStore test_leaves"
    using Verify_cases [of ?t NewMapStore test_leaves]
    by (simp add: Tree_Root_def GetNode_def NewMapStore_def)
  have 5: "\<not> Tree_Verify ?t ?st []"
    using Verify_cases [of ?t ?st] by simp
  have 6: "\<not> Tree_Verify ?t ?st [\<lparr>Position = NewPosition 1 0, Data = [1]\<rparr>]"
    using Verify_cases [of ?t ?st "[\<lparr>Position = NewPosition 1 0, Data = [1]\<rparr>]"]
    by (simp add: NewPosition_def)
  have 7: "\<not> Tree_Verify ?t ?st [leaf 7 [7]]"
    using Verify_cases [of ?t ?st "[leaf 7 [7]]"]
    by (simp add: n leaf_def NewPosition_def)
  have hi: "inj (hashFunc ?t)" by (simp add: bf_test_tree toy_inj)
  have a8: "length (alteredLeaves ?st [leaf 1 [4]]) = 1"
    by (simp add: alteredLeaves_def leafRow_def lookup_last_def n leaf_def NewPosition_def)
  have 8: "\<not> Tree_Verify ?t ?st [leaf 1 [4]]"
    using Verify_cases [of ?t ?st "[leaf 1 [4]]"] c hi a8 by blast
  have a9: "length (alteredLeaves ?st [leaf 1 [4], leaf 5 [5]]) = 1"
    by (simp add: alteredLeaves_def leafRow_def lookup_last_def n leaf_def NewPosition_def)
  have 9: "\<not> Tree_Verify ?t ?st [leaf 1 [4], leaf 5 [5]]"
    using Verify_cases [of ?t ?st "[leaf 1 [4], leaf 5 [5]]"] c hi a9 by blast
  have fu: "fixed_length (hashFunc ?u)" by (simp add: bf_test_tree byte_hash_fixed)
  have a10: "alteredLeaves ?su [leaf 1 [4], leaf 5 [1]] \<noteq> []"
    by (simp add: alteredLeaves_def leafRow_def lookup_last_def nu leaf_def NewPosition_def)
  have l10: "\<forall>n \<in> set [leaf 1 [4], leaf 5 [1]].
      length (Data n) = length (stored ?su 0 (snd (Position n)))"
    by (simp add: stored_def nu leaf_def NewPosition_def)
  have 10: "\<not> Tree_Verify ?u ?su [leaf 1 [4], leaf 5 [1]]"
    using Verify_cases [of ?u ?su "[leaf 1 [4], leaf 5 [1]]"] cu byte_hash_free fu a10 l10
    by blast
  from c 1 2 3 4 5 6 7 8 9 cu byte_hash_free byte_hash_fixed 10 show ?thesis by blast
qed

lemma upd_two: "Tree_Update (test_tree H) NewMapStore [leaf 0 [0, 1], leaf 1 [2]] 2 =
  \<lparr>LeafCount = 2, Height = 1, Leaves = [leaf 0 [0, 1], leaf 1 [2]],
   Branches = [\<lparr>Position = (1, 0), Data = H [0, 1, 2]\<rparr>],
   Root = Some \<lparr>Position = (1, 0), Data = H [0, 1, 2]\<rparr>\<rparr>"
  by code_simp

lemma upd_one: "Tree_Update (test_tree H) NewMapStore [leaf 0 [0]] 1 =
  \<lparr>LeafCount = 1, Height = 1, Leaves = [leaf 0 [0]],
   Branches = [\<lparr>Position = (1, 0), Data = H [0]\<rparr>],
   Root = Some \<lparr>Position = (1, 0), Data = H [0]\<rparr>\<rparr>"
  by code_simp

lemma upd_sparse:
  "Tree_Update (test_tree (sha3_256 toy)) one_leaf_store [leaf 9 [1]] 10 =
   \<lparr>LeafCount = 10, Height = 3, Leaves = [leaf 9 [1]],
    Branches = [\<lparr>Position = (1, 3), Data = sha3_256 toy [1]\<rparr>,
                \<lparr>Position = (2, 1), Data = sha3_256 toy (sha3_256 toy [1])\<rparr>,
                \<lparr>Position = (3, 0), Data = sha3_256 toy (sha3_256 toy (sha3_256 toy [1]))\<rparr>],
    Root = Some \<lparr>Position = (3, 0), Data = sha3_256 toy (sha3_256 toy (sha3_256 toy [1]))\<rparr>\<rparr>"
  unfolding one_leaf_store_def upd_one
  apply code_simp
  done

text \<open>
  Supplied leaf data that differs from the committed data is not always refused: a
  parent hashes the plain concatenation of its children, so the committed leaves
  [0, 1] and [2] and the supplied leaves [0] and [1, 2] give the same parent, whatever
  the hash. And a committed leaf does not always verify: after an update that sets
  leaf 9 of a tree of one leaf, without the leaves between, the tree has a root and
  leaf 0 is stored as committed, but does not verify.
\<close>

theorem Verify_altered_counterexample:
  "committed (test_tree (sha3_256 toy)) two_leaf_store
   \<and> nodes two_leaf_store (0, 0) = Some [0, 1]
   \<and> nodes two_leaf_store (0, 1) = Some [2]
   \<and> Tree_Verify (test_tree (sha3_256 toy)) two_leaf_store [leaf 0 [0], leaf 1 [1, 2]]
   \<and> committed (test_tree (sha3_256 toy)) one_leaf_store
   \<and> \<not> valid_update one_leaf_store [leaf 9 [1]] 10
   \<and> nodes sparse_store (0, 0) = Some [0]
   \<and> leafCount sparse_store = 10
   \<and> Tree_Root (test_tree (sha3_256 toy)) sparse_store \<noteq> None
   \<and> \<not> Tree_Verify (test_tree (sha3_256 toy)) sparse_store [leaf 0 [0]]"
proof -
  have c: "committed (test_tree (sha3_256 toy)) two_leaf_store"
    unfolding two_leaf_store_def test_tree_def
    by (rule committed_update [OF committed_empty])
      (simp add: valid_update_def leaf_def NewPosition_def NewMapStore_def upt_rec)
  have n: "nodes two_leaf_store (0, 0) = Some [0, 1]" "nodes two_leaf_store (0, 1) = Some [2]"
    unfolding two_leaf_store_def upd_two
    by (simp_all add: CommitUpdate_def NewMapStore_def leaf_def NewPosition_def)
  have v: "Tree_Verify (test_tree (sha3_256 toy)) two_leaf_store [leaf 0 [0], leaf 1 [1, 2]]"
    unfolding two_leaf_store_def upd_two
    apply code_simp
    done
  have c1: "committed (test_tree (sha3_256 toy)) one_leaf_store"
    unfolding one_leaf_store_def test_tree_def
    by (rule committed_update [OF committed_empty])
      (simp add: valid_update_def leaf_def NewPosition_def NewMapStore_def upt_rec)
  have l1: "leafCount one_leaf_store = 1"
    unfolding one_leaf_store_def upd_one by (simp add: CommitUpdate_def)
  have nv: "\<not> valid_update one_leaf_store [leaf 9 [1]] 10"
    by (simp add: valid_update_def l1 leaf_def NewPosition_def upt_rec)
  have s: "nodes sparse_store (0, 0) = Some [0]" "leafCount sparse_store = 10"
    "Tree_Root (test_tree (sha3_256 toy)) sparse_store \<noteq> None"
    unfolding sparse_store_def upd_sparse unfolding one_leaf_store_def upd_one
    by (simp_all add: CommitUpdate_def NewMapStore_def leaf_def NewPosition_def Tree_Root_def
        GetNode_def)
  have w: "\<not> Tree_Verify (test_tree (sha3_256 toy)) sparse_store [leaf 0 [0]]"
    unfolding sparse_store_def upd_sparse unfolding one_leaf_store_def upd_one
    apply code_simp
    done
  from c n v c1 nv s w show ?thesis by simp
qed

section \<open>Storage: the order of the writes of Commit\<close>

lemma updateLevels_root: "dirty \<noteq> [] \<Longrightarrow> 2 \<le> bf t \<Longrightarrow> snd (updateLevels t st h L dirty) \<noteq> None"
proof (induction t st h L dirty rule: updateLevels.induct)
  case (1 t st h L dirty)
  show ?case
  proof (cases "length dirty = 1 \<and> fst (hd dirty) = 0 \<and> h \<le> L")
    case True
    then show ?thesis using 1(2,3) by (subst updateLevels.simps) simp
  next
    case False
    have ne: "upperLevel t st L dirty \<noteq> []" using 1(2) by (simp add: upperLevel_empty)
    have "\<not> (dirty = [] \<or> bf t < 2)" using 1(2,3) by simp
    from 1(1) [OF this False ne 1(3)] show ?thesis
      using 1(2,3) False by (subst updateLevels.simps) (simp add: split_beta)
  qed
qed

lemma Tree_Update_root: "leaves \<noteq> [] \<Longrightarrow> 2 \<le> bf t \<Longrightarrow> Root (Tree_Update t st leaves n) \<noteq> None"
  using updateLevels_root [of "leafRow leaves" t st "tree_height (bf t) n" 0]
  by (simp add: Tree_Update_def Let_def leafRow_def)

lemma setNewTreeIndexes_length:
  "setNewTreeIndexes scs n = (scs', m) \<Longrightarrow> length scs' = length scs"
  by (induction scs arbitrary: n scs' m) (auto split: option.splits prod.splits)

lemma computeMerkleUpdate_returns:
  assumes "bc_StateChanges (cd_BlockCommit cdata) \<noteq> []"
  shows "\<exists>cdata' upd. computeMerkleUpdate c strg cdata = Returns cdata' \<and>
     cd_merkleUpdate cdata' = Some upd \<and> cd_Block cdata' = cd_Block cdata \<and>
     cd_QC cdata' = cd_QC cdata \<and> cd_Transactions cdata' = cd_Transactions cdata \<and>
     cd_TxCommits cdata' = cd_TxCommits cdata \<and>
     bc_StateChanges (cd_BlockCommit cdata') \<noteq> []"
proof -
  let ?scs0 = "loadPrevTreeIndexes (db strg) (loadPrevValues (db strg) (bc_StateChanges (cd_BlockCommit cdata)))"
  obtain scs n where s: "setNewTreeIndexes ?scs0 (leafCount (db_merkle (db strg))) = (scs, n)"
    by (cases "setNewTreeIndexes ?scs0 (leafCount (db_merkle (db strg)))")
  have "length scs = length (bc_StateChanges (cd_BlockCommit cdata))"
    using setNewTreeIndexes_length [OF s]
    by (simp add: loadPrevTreeIndexes_def loadPrevValues_def)
  with assms have ne: "scs \<noteq> []" by auto
  then have "computeUpdatedTreeNodes c scs \<noteq> []" by (simp add: computeUpdatedTreeNodes_def)
  from Tree_Update_root [OF this bf_NewTree]
  obtain root where "Root (Tree_Update (merkleTree c strg) (db_merkle (db strg))
      (computeUpdatedTreeNodes c scs) n) = Some root"
    unfolding merkleTree_def by blast
  then show ?thesis using ne
    by (simp add: computeMerkleUpdate_def s Let_def)
qed

lemma applyUpdate_blockHeight:
  "\<not> isSetBlockHeight f \<Longrightarrow> db_blockHeight (applyUpdate d f) = db_blockHeight d"
  by (cases f) simp_all

lemma foldl_applyUpdate_blockHeight:
  "\<forall>f \<in> set fns. \<not> isSetBlockHeight f \<Longrightarrow>
   db_blockHeight (foldl applyUpdate d fns) = db_blockHeight d"
  by (induction fns arbitrary: d) (simp_all add: applyUpdate_blockHeight)

lemma no_height_chain: "\<forall>f \<in> set (chainDataUpdates cdata). \<not> isSetBlockHeight f"
  by (auto simp: chainDataUpdates_def setBlock_def setTxs_def setTxCommits_def)

lemma no_height_state: "\<forall>f \<in> set (stateMerkleUpdates cdata). \<not> isSetBlockHeight f"
  by (auto simp: stateMerkleUpdates_def commitStateChanges_def commitUpdate_def split: option.split)

lemma writeChainData_eq:
  "writeChainData io strg cdata = updateBadgerDB io strg (chainDataUpdates cdata)"
  by (simp add: writeChainData_def chainDataUpdates_def)


lemma writeCommitData_cases:
  assumes m: "bc_StateChanges (cd_BlockCommit cdata) \<noteq> [] \<longrightarrow> cd_merkleUpdate cdata \<noteq> None"
  shows "\<exists>err strg'.
     writeCommitData io strg cdata = Returns (err, strg') \<and> config strg' = config strg \<and>
     (let k = attempts strg;
          b1 = Batch (chainDataUpdates cdata);
          b2 = Batch [setBlockCommit (cd_BlockCommit cdata)];
          b3 = Batch (stateMerkleUpdates cdata);
          b4 = Batch [SetBlockHeight (blk_Height (cd_Block cdata))]
      in if io k then err = Some StorageIOError \<and> trace strg' = trace strg @ [b1 False]
         else if io (k + 1)
         then err = Some StorageIOError \<and> trace strg' = trace strg @ [b1 True, b2 False]
         else if bc_StateChanges (cd_BlockCommit cdata) = []
         then (if io (k + 2)
               then err = Some StorageIOError \<and>
                    trace strg' = trace strg @ [b1 True, b2 True, b4 False]
               else err = None \<and> trace strg' = trace strg @ [b1 True, b2 True, b4 True])
         else if io (k + 2)
         then err = Some StorageIOError \<and>
              trace strg' = trace strg @ [b1 True, b2 True, Lock, b3 False, Unlock]
         else if io (k + 3)
         then err = Some StorageIOError \<and>
              trace strg' = trace strg @ [b1 True, b2 True, Lock, b3 True, Unlock, b4 False]
         else err = None \<and>
              trace strg' = trace strg @ [b1 True, b2 True, Lock, b3 True, Unlock, b4 True]) \<and>
     db_blockHeight (db strg') =
       (if err = None then Some (blk_Height (cd_Block cdata)) else db_blockHeight (db strg))"
proof (cases "bc_StateChanges (cd_BlockCommit cdata) = []")
  case True
  then show ?thesis
    by (simp add: writeCommitData_def writeChainData_eq writeBlockCommit_def
        writeStateMerkleTree_def setCommitedBlockHeight_def updateBadgerDB_def Let_def
        foldl_applyUpdate_blockHeight [OF no_height_chain] setBlockCommit_def attempts_def)
next
  case False
  with m obtain upd where u: "cd_merkleUpdate cdata = Some upd" by auto
  have nh: "db_blockHeight (foldl applyUpdate d (stateMerkleUpdates cdata)) = db_blockHeight d" for d
    by (rule foldl_applyUpdate_blockHeight [OF no_height_state])
  have sm: "commitStateChanges (bc_StateChanges (cd_BlockCommit cdata)) @ commitUpdate upd
      = stateMerkleUpdates cdata" by (simp add: stateMerkleUpdates_def u)
  show ?thesis using False
    by (simp add: writeCommitData_def writeChainData_eq writeBlockCommit_def
        writeStateMerkleTree_def setCommitedBlockHeight_def updateBadgerDB_def Let_def u sm nh
        foldl_applyUpdate_blockHeight [OF no_height_chain] setBlockCommit_def attempts_def
        eval_nat_numeral del: foldl_append)
qed


section \<open>Storage: VerifyState\<close>

lemma VerifyState_eq:
  "VerifyState c strg key =
     (case getMerkleIndex (db strg) key of
        None \<Rightarrow> Inl StateNotFound
      | Some idx \<Rightarrow>
          if Tree_Verify (merkleTree c strg) (db_merkle (db strg))
               [\<lparr>Position = (0, be_value idx), Data = sha3_256 c (getState (db strg) key)\<rparr>]
          then Inr (getState (db strg) key) else Inl MerkleVerifyFailed)"
  by (simp add: VerifyState_def Let_def NewPosition_def sumStateValue_def split: option.split)

text \<open>
  C4. \<open>VerifyState\<close> reads the value and the tree index of the key, and returns the
  state-not-found error when there is no tree index; otherwise it verifies the single
  node at (0, tree index) with the sha3-256 of the value as data, and returns the value
  exactly when the Merkle tree verifies the node, the verification error otherwise. For
  a key committed with value \<open>v\<close> (the leaf at its index holds the hash of \<open>v\<close> in a
  committed tree) it returns \<open>v\<close> while the stored value is \<open>v\<close>, and the verification
  error once the stored value differs (for an injective hash).
\<close>

theorem VerifyState_cases:
  "VerifyState c strg key =
     (case getMerkleIndex (db strg) key of
        None \<Rightarrow> Inl StateNotFound
      | Some idx \<Rightarrow>
          if Tree_Verify (merkleTree c strg) (db_merkle (db strg))
               [\<lparr>Position = (0, be_value idx), Data = sha3_256 c (getState (db strg) key)\<rparr>]
          then Inr (getState (db strg) key) else Inl MerkleVerifyFailed)
   \<and> (committed (merkleTree c strg) (db_merkle (db strg)) \<and>
       db_merkleIndex (db strg) key = Some idx \<and>
       be_value idx < leafCount (db_merkle (db strg)) \<and>
       nodes (db_merkle (db strg)) (0, be_value idx) = Some (sha3_256 c v)
       \<longrightarrow> (db_state (db strg) key = Some v \<longrightarrow> VerifyState c strg key = Inr v) \<and>
           (inj (sha3_256 c) \<and> db_state (db strg) key = Some v' \<and> v' \<noteq> v
            \<longrightarrow> VerifyState c strg key = Inl MerkleVerifyFailed))"
proof -
  have pos: "VerifyState c strg key = Inr v"
    if "committed (merkleTree c strg) (db_merkle (db strg))"
      "db_merkleIndex (db strg) key = Some idx"
      "be_value idx < leafCount (db_merkle (db strg))"
      "nodes (db_merkle (db strg)) (0, be_value idx) = Some (sha3_256 c v)"
      "db_state (db strg) key = Some v"
  proof -
    have "Tree_Verify (merkleTree c strg) (db_merkle (db strg))
        [\<lparr>Position = (0, be_value idx), Data = sha3_256 c v\<rparr>]"
      using that by (intro Verify_committed_leaves committed_tree_inv) simp_all
    with that show ?thesis by (simp add: VerifyState_eq getMerkleIndex_def getState_def)
  qed
  have neg: "VerifyState c strg key = Inl MerkleVerifyFailed"
    if "committed (merkleTree c strg) (db_merkle (db strg))"
      "db_merkleIndex (db strg) key = Some idx"
      "be_value idx < leafCount (db_merkle (db strg))"
      "nodes (db_merkle (db strg)) (0, be_value idx) = Some (sha3_256 c v)"
      "inj (sha3_256 c)" "db_state (db strg) key = Some v'" "v' \<noteq> v"
  proof -
    have h: "hashFunc (merkleTree c strg) = sha3_256 c" by (simp add: merkleTree_def NewTree_def)
    have "sha3_256 c v' \<noteq> sha3_256 c v" using that(5,7) by (auto dest: injD)
    then have "\<not> Tree_Verify (merkleTree c strg) (db_merkle (db strg))
        [\<lparr>Position = (0, be_value idx), Data = sha3_256 c v'\<rparr>]"
      using that by (intro Verify_altered_leaf [where ?d0.0 = "sha3_256 c v"] committed_tree_inv)
        (simp_all add: h)
    with that show ?thesis by (simp add: VerifyState_eq getMerkleIndex_def getState_def)
  qed
  show ?thesis using VerifyState_eq [of c strg key] pos neg by blast
qed

lemma big_Bytes_0: "big_Bytes 0 = []" by (simp add: big_Bytes.simps)

lemma toy_storage_tree:
  "merkleTree toy toy_storage = NewTree \<lparr>BranchFactor = 8, HashFunc = sha3_256 toy\<rparr>"
  "merkleTree toy tampered_storage = NewTree \<lparr>BranchFactor = 8, HashFunc = sha3_256 toy\<rparr>"
  by (simp_all add: merkleTree_def toy_storage_def tampered_storage_def)

lemma toy_storage_committed:
  "committed (merkleTree toy toy_storage) (db_merkle (db toy_storage))"
  "committed (merkleTree toy tampered_storage) (db_merkle (db tampered_storage))"
  unfolding toy_storage_tree
  unfolding toy_storage_def tampered_storage_def
  by (simp_all, rule_tac [!] committed_update [OF committed_empty])
    (simp_all add: valid_update_def leaf_def NewPosition_def NewMapStore_def upt_rec)

lemma toy_storage_leaf:
  "nodes (db_merkle (db toy_storage)) (0, 0) = Some (sha3_256 toy [10])"
  "leafCount (db_merkle (db toy_storage)) = 2"
  "nodes (db_merkle (db tampered_storage)) (0, 0) = Some (sha3_256 toy [10])"
  "leafCount (db_merkle (db tampered_storage)) = 2"
proof -
  let ?leaves = "[leaf 0 (sha3_256 toy [10]), leaf 1 (sha3_256 toy [20])]"
  have v: "valid_update NewMapStore ?leaves 2"
    by (simp add: valid_update_def leaf_def NewPosition_def NewMapStore_def upt_rec)
  note n = nodes_after_commit(1) [OF bf_NewTree v, of _ 0 0] nodes_after_commit(3) [OF bf_NewTree v]
  show "nodes (db_merkle (db toy_storage)) (0, 0) = Some (sha3_256 toy [10])"
    "leafCount (db_merkle (db toy_storage)) = 2"
    "nodes (db_merkle (db tampered_storage)) (0, 0) = Some (sha3_256 toy [10])"
    "leafCount (db_merkle (db tampered_storage)) = 2"
    using n
    by (simp_all add: tampered_storage_def toy_storage_def lookup_last_def leafRow_def leaf_def
        NewPosition_def)
qed

lemma toy_storage_reads:
  "db_merkleIndex (db toy_storage) [1] = Some []"
  "db_state (db toy_storage) [1] = Some [10]"
  "db_merkleIndex (db tampered_storage) [1] = Some []"
  "db_state (db tampered_storage) [1] = Some [11]"
  "getMerkleIndex (db toy_storage) [3] = None"
  by (simp_all add: tampered_storage_def toy_storage_def big_Bytes_0 getMerkleIndex_def)

theorem VerifyState_witness:
  "VerifyState toy toy_storage [1] = Inr [10]
   \<and> VerifyState toy tampered_storage [1] = Inl MerkleVerifyFailed
   \<and> VerifyState toy toy_storage [3] = Inl StateNotFound"
proof -
  have z: "be_value [] < leafCount (db_merkle (db toy_storage))"
    "be_value [] < leafCount (db_merkle (db tampered_storage))"
    "nodes (db_merkle (db toy_storage)) (0, be_value []) = Some (sha3_256 toy [10])"
    "nodes (db_merkle (db tampered_storage)) (0, be_value []) = Some (sha3_256 toy [10])"
    by (simp_all add: be_value_def toy_storage_leaf)
  have ne: "[11] \<noteq> ([10] :: bytes)" by simp
  have 1: "VerifyState toy toy_storage [1] = Inr [10]"
    using VerifyState_cases [where c = toy and strg = toy_storage and key = "[1]" and
        idx = "[]" and v = "[10]"]
      toy_storage_committed(1) toy_storage_reads(1,2) z(1,3)
    by blast
  have 2: "VerifyState toy tampered_storage [1] = Inl MerkleVerifyFailed"
    using VerifyState_cases [where c = toy and strg = tampered_storage and key = "[1]" and
        idx = "[]" and v = "[10]" and v' = "[11]"]
      toy_storage_committed(2) toy_storage_reads(3,4) z(2,4) toy_inj ne
    by blast
  have 3: "VerifyState toy toy_storage [3] = Inl StateNotFound"
    using VerifyState_cases [where c = toy and strg = toy_storage and key = "[3]"]
    by (simp add: toy_storage_reads(5))
  from 1 2 3 show ?thesis by simp
qed

section \<open>Storage: a committed state verifies\<close>

text \<open>
  A successful \<open>Commit\<close> on a storage in step with its tree leaves a storage in step
  with its tree, in which every key of the state changes (each key once) has a tree
  index and its new value; there \<open>VerifyState\<close> returns the value, and the
  verification error once the stored value is overwritten (for an injective hash).
\<close>

lemma be_value_snoc: "be_value (xs @ [b]) = be_value xs * 256 + unat b"
  by (simp add: be_value_def)

lemma be_value_big_Bytes: "be_value (big_Bytes n) = n"
proof (induction n rule: big_Bytes.induct)
  case (1 n)
  show ?case
  proof (cases "n = 0")
    case True
    then show ?thesis by (simp add: big_Bytes.simps be_value_def)
  next
    case False
    have u: "unat (of_nat (n mod 256) :: 8 word) = n mod 256"
      by (simp add: unat_of_nat)
    have "big_Bytes n = big_Bytes (n div 256) @ [of_nat (n mod 256)]"
      using False by (subst big_Bytes.simps) simp
    then show ?thesis using 1 [OF False] by (simp add: be_value_snoc u)
  qed
qed

lemma applyUpdate_proj:
  "db_state (applyUpdate d f) = stateOf (db_state d) f"
  "db_merkleIndex (applyUpdate d f) = indexOf (db_merkleIndex d) f"
  "db_merkle (applyUpdate d f) = merkleOf (db_merkle d) f"
  by (cases f; simp)+

lemma foldl_applyUpdate_proj:
  "db_state (foldl applyUpdate d fns) = foldl stateOf (db_state d) fns"
  "db_merkleIndex (foldl applyUpdate d fns) = foldl indexOf (db_merkleIndex d) fns"
  "db_merkle (foldl applyUpdate d fns) = foldl merkleOf (db_merkle d) fns"
  by (induction fns arbitrary: d) (simp_all add: applyUpdate_proj)

lemma chain_proj:
  "foldl stateOf m (chainDataUpdates cdata) = m"
  "foldl indexOf i (chainDataUpdates cdata) = i"
  "foldl merkleOf st (chainDataUpdates cdata) = st"
proof -
  have a: "foldl stateOf m (map (\<lambda>tx. SetTx (tx_Hash tx) tx) txs) = m" for m txs
    by (induction txs) simp_all
  have b: "foldl stateOf m (map (\<lambda>txc. SetTxCommit (txc_Hash txc) txc) txcs) = m" for m txcs
    by (induction txcs) simp_all
  have c: "foldl indexOf m (map (\<lambda>tx. SetTx (tx_Hash tx) tx) txs) = m" for m txs
    by (induction txs) simp_all
  have d: "foldl indexOf m (map (\<lambda>txc. SetTxCommit (txc_Hash txc) txc) txcs) = m" for m txcs
    by (induction txcs) simp_all
  have e: "foldl merkleOf m (map (\<lambda>tx. SetTx (tx_Hash tx) tx) txs) = m" for m txs
    by (induction txs) simp_all
  have f: "foldl merkleOf m (map (\<lambda>txc. SetTxCommit (txc_Hash txc) txc) txcs) = m" for m txcs
    by (induction txcs) simp_all
  show "foldl stateOf m (chainDataUpdates cdata) = m"
    "foldl indexOf i (chainDataUpdates cdata) = i"
    "foldl merkleOf st (chainDataUpdates cdata) = st"
    by (simp_all add: chainDataUpdates_def setBlock_def setTxs_def setTxCommits_def a b c d e f)
qed

lemma state_changes_proj:
  "foldl stateOf m (commitStateChanges scs) = foldl (\<lambda>m sc. m(sc_Key sc \<mapsto> sc_Value sc)) m scs"
  "foldl indexOf i (commitStateChanges scs) = foldl (\<lambda>m sc. m(sc_Key sc \<mapsto> indexBytes sc)) i scs"
  "foldl merkleOf st (commitStateChanges scs) = st"
  by (induction scs arbitrary: m i st) (simp_all add: commitStateChanges_def indexBytes_def)

lemma commitUpdate_proj:
  "foldl stateOf m (commitUpdate upd) = m"
  "foldl indexOf i (commitUpdate upd) = i"
  "foldl merkleOf st (commitUpdate upd) = CommitUpdate upd st"
proof -
  have a: "foldl stateOf m (map (\<lambda>n. SetMerkleNode (Position n) (Data n)) ns) = m" for m ns
    by (induction ns) simp_all
  have b: "foldl indexOf m (map (\<lambda>n. SetMerkleNode (Position n) (Data n)) ns) = m" for m ns
    by (induction ns) simp_all
  have c: "foldl merkleOf st (map (\<lambda>n. SetMerkleNode (Position n) (Data n)) ns) =
      st\<lparr>nodes := foldl (\<lambda>m n. m(Position n \<mapsto> Data n)) (nodes st) ns\<rparr>" for st ns
    by (induction ns arbitrary: st) simp_all
  show "foldl stateOf m (commitUpdate upd) = m" "foldl indexOf i (commitUpdate upd) = i"
    by (simp_all add: commitUpdate_def a b del: map_append)
  show "foldl merkleOf st (commitUpdate upd) = CommitUpdate upd st"
    by (simp add: commitUpdate_def c CommitUpdate_def del: map_append)
qed

lemma map_of_rev_pairs_in:
  assumes "distinct (map f xs)" "x \<in> set xs"
  shows "map_of (rev (map (\<lambda>x. (f x, g x)) xs)) (f x) = Some (g x)"
proof -
  have "distinct (map fst (rev (map (\<lambda>x. (f x, g x)) xs)))"
    using assms(1) by (simp add: rev_map [symmetric] o_def)
  moreover have "(f x, g x) \<in> set (rev (map (\<lambda>x. (f x, g x)) xs))" using assms(2) by auto
  ultimately show ?thesis by (simp only: map_of_eq_Some_iff)
qed

lemma map_of_rev_pairs_out:
  assumes "k \<notin> f ` set xs"
  shows "map_of (rev (map (\<lambda>x. (f x, g x)) xs)) k = None"
  using assms by (simp add: map_of_eq_None_iff image_image)

lemma foldl_map_upd:
  "foldl (\<lambda>m x. m(f x \<mapsto> g x)) m xs k =
     (case map_of (rev (map (\<lambda>x. (f x, g x)) xs)) k of Some v \<Rightarrow> Some v | None \<Rightarrow> m k)"
  by (induction xs rule: rev_induct) simp_all

lemma foldl_map_upd_in:
  "distinct (map f xs) \<Longrightarrow> x \<in> set xs \<Longrightarrow> foldl (\<lambda>m x. m(f x \<mapsto> g x)) m xs (f x) = Some (g x)"
  by (simp add: foldl_map_upd map_of_rev_pairs_in)

lemma foldl_map_upd_out:
  "k \<notin> f ` set xs \<Longrightarrow> foldl (\<lambda>m x. m(f x \<mapsto> g x)) m xs k = m k"
  by (simp add: foldl_map_upd map_of_rev_pairs_out)

lemma setNewTreeIndexes_props:
  "setNewTreeIndexes scs n = (scs', n') \<Longrightarrow>
     map sc_Key scs' = map sc_Key scs \<and> map sc_Value scs' = map sc_Value scs \<and>
     map sc_PrevTreeIndex scs' = map sc_PrevTreeIndex scs \<and> n \<le> n' \<and>
     (\<forall>sc \<in> set scs'. \<not> isNew sc \<longrightarrow> sc_TreeIndex sc = sc_PrevTreeIndex sc) \<and>
     map treeIndexOf (filter isNew scs') = [n ..< n']"
proof (induction scs arbitrary: n scs' n')
  case Nil
  then show ?case by simp
next
  case (Cons sc scs)
  show ?case
  proof (cases "sc_PrevTreeIndex sc")
    case None
    obtain r m where r: "setNewTreeIndexes scs (Suc n) = (r, m)"
      by (cases "setNewTreeIndexes scs (Suc n)")
    with Cons.prems None have s: "scs' = sc\<lparr>sc_TreeIndex := Some (big_Bytes n)\<rparr> # r" and m: "n' = m"
      by simp_all
    from Cons.IH [OF r] have ih: "map sc_Key r = map sc_Key scs"
      "map sc_Value r = map sc_Value scs" "map sc_PrevTreeIndex r = map sc_PrevTreeIndex scs"
      "Suc n \<le> m" "\<forall>sc \<in> set r. \<not> isNew sc \<longrightarrow> sc_TreeIndex sc = sc_PrevTreeIndex sc"
      "map treeIndexOf (filter isNew r) = [Suc n ..< m]" by simp_all
    have u: "[n ..< m] = n # [Suc n ..< m]" using ih(4) by (simp add: upt_conv_Cons)
    have a: "isNew (sc\<lparr>sc_TreeIndex := Some (big_Bytes n)\<rparr>)" using None by (simp add: isNew_def)
    have b: "treeIndexOf (sc\<lparr>sc_TreeIndex := Some (big_Bytes n)\<rparr>) = n"
      by (simp add: treeIndexOf_def be_value_big_Bytes)
    show ?thesis
      using ih by (simp add: s m a b u)
  next
    case (Some i)
    obtain r m where r: "setNewTreeIndexes scs n = (r, m)"
      by (cases "setNewTreeIndexes scs n")
    with Cons.prems Some have s: "scs' = sc\<lparr>sc_TreeIndex := Some i\<rparr> # r" and m: "n' = m"
      by simp_all
    have a: "\<not> isNew (sc\<lparr>sc_TreeIndex := Some i\<rparr>)" using Some by (simp add: isNew_def)
    from Cons.IH [OF r] show ?thesis
      using Some by (simp add: s m a)
  qed
qed

lemma setNewTreeIndexes_same:
  "setNewTreeIndexes scs n = (scs', n') \<Longrightarrow>
     \<forall>sc \<in> set scs'. \<exists>sc0 \<in> set scs. sc_Key sc = sc_Key sc0 \<and> sc_Value sc = sc_Value sc0 \<and>
        sc_PrevTreeIndex sc = sc_PrevTreeIndex sc0"
proof (induction scs arbitrary: n scs' n')
  case Nil
  then show ?case by simp
next
  case (Cons sc scs)
  show ?case
  proof (cases "sc_PrevTreeIndex sc")
    case None
    obtain r m where r: "setNewTreeIndexes scs (Suc n) = (r, m)"
      by (cases "setNewTreeIndexes scs (Suc n)")
    with Cons.prems None have s: "scs' = sc\<lparr>sc_TreeIndex := Some (big_Bytes n)\<rparr> # r" by simp
    from Cons.IH [OF r] show ?thesis unfolding s by auto
  next
    case (Some i)
    obtain r m where r: "setNewTreeIndexes scs n = (r, m)"
      by (cases "setNewTreeIndexes scs n")
    with Cons.prems Some have s: "scs' = sc\<lparr>sc_TreeIndex := Some i\<rparr> # r" by simp
    from Cons.IH [OF r] show ?thesis unfolding s by auto
  qed
qed

lemma writeCommitData_success:
  assumes w: "writeCommitData io strg cdata = Returns (None, strg')"
  shows "config strg' = config strg"
    and "bc_StateChanges (cd_BlockCommit cdata) = [] \<Longrightarrow>
      db_state (db strg') = db_state (db strg) \<and>
      db_merkleIndex (db strg') = db_merkleIndex (db strg) \<and>
      db_merkle (db strg') = db_merkle (db strg)"
    and "bc_StateChanges (cd_BlockCommit cdata) \<noteq> [] \<Longrightarrow>
      \<exists>upd. cd_merkleUpdate cdata = Some upd \<and>
        db_state (db strg') =
          foldl (\<lambda>m sc. m(sc_Key sc \<mapsto> sc_Value sc)) (db_state (db strg))
            (bc_StateChanges (cd_BlockCommit cdata)) \<and>
        db_merkleIndex (db strg') =
          foldl (\<lambda>m sc. m(sc_Key sc \<mapsto> indexBytes sc)) (db_merkleIndex (db strg))
            (bc_StateChanges (cd_BlockCommit cdata)) \<and>
        db_merkle (db strg') = CommitUpdate upd (db_merkle (db strg))"
proof -
  note defs = writeCommitData_def writeChainData_eq writeBlockCommit_def
    writeStateMerkleTree_def setCommitedBlockHeight_def updateBadgerDB_def Let_def
    setBlockCommit_def
  note proj = foldl_applyUpdate_proj chain_proj state_changes_proj commitUpdate_proj
  show "config strg' = config strg"
    using w by (auto simp: defs split: if_splits option.splits)
  show "db_state (db strg') = db_state (db strg) \<and>
      db_merkleIndex (db strg') = db_merkleIndex (db strg) \<and>
      db_merkle (db strg') = db_merkle (db strg)"
    if "bc_StateChanges (cd_BlockCommit cdata) = []"
    using w that by (auto simp: defs proj split: if_splits)
  show "\<exists>upd. cd_merkleUpdate cdata = Some upd \<and>
        db_state (db strg') =
          foldl (\<lambda>m sc. m(sc_Key sc \<mapsto> sc_Value sc)) (db_state (db strg))
            (bc_StateChanges (cd_BlockCommit cdata)) \<and>
        db_merkleIndex (db strg') =
          foldl (\<lambda>m sc. m(sc_Key sc \<mapsto> indexBytes sc)) (db_merkleIndex (db strg))
            (bc_StateChanges (cd_BlockCommit cdata)) \<and>
        db_merkle (db strg') = CommitUpdate upd (db_merkle (db strg))"
    if "bc_StateChanges (cd_BlockCommit cdata) \<noteq> []"
    using w that by (auto simp: defs proj split: if_splits option.splits)
qed

lemma lookup_last_pairs_in:
  "distinct (map f xs) \<Longrightarrow> x \<in> set xs \<Longrightarrow> lookup_last (map (\<lambda>x. (f x, g x)) xs) (f x) = Some (g x)"
  unfolding lookup_last_def by (rule map_of_rev_pairs_in)

lemma lookup_last_pairs_out:
  "k \<notin> f ` set xs \<Longrightarrow> lookup_last (map (\<lambda>x. (f x, g x)) xs) k = None"
  unfolding lookup_last_def by (rule map_of_rev_pairs_out)

lemma map_pair_cong:
  "map f xs = map f ys \<Longrightarrow> map g xs = map g ys \<Longrightarrow>
   map (\<lambda>x. (f x, g x)) xs = map (\<lambda>x. (f x, g x)) ys"
proof (induction xs arbitrary: ys)
  case Nil
  then show ?case by simp
next
  case (Cons x xs)
  from Cons.prems(1) obtain y zs where ys: "ys = y # zs" by (cases ys) simp_all
  from Cons.prems have "f x = f y" "g x = g y" "map f xs = map f zs" "map g xs = map g zs"
    by (simp_all add: ys)
  with Cons.IH [of zs] show ?case by (simp add: ys)
qed

lemma Commit_no_changes:
  assumes "bc_StateChanges (cd_BlockCommit cdata) = []"
    and "Commit io c strg cdata = Returns (None, strg', cdata')"
  shows "writeCommitData io strg cdata = Returns (None, strg')"
proof (cases "writeCommitData io strg cdata")
  case Panics
  with assms show ?thesis by (simp add: Commit_def commit_def)
next
  case (Returns p)
  with assms show ?thesis by (cases p) (simp add: Commit_def commit_def)
qed

lemma Commit_changes:
  assumes "bc_StateChanges (cd_BlockCommit cdata) \<noteq> []"
    and "computeMerkleUpdate c strg cdata = Returns cd1"
    and "Commit io c strg cdata = Returns (None, strg', cdata')"
  shows "writeCommitData io strg cd1 = Returns (None, strg')"
proof (cases "writeCommitData io strg cd1")
  case Panics
  with assms show ?thesis by (simp add: Commit_def commit_def)
next
  case (Returns p)
  with assms show ?thesis by (cases p) (simp add: Commit_def commit_def)
qed

lemma Commit_success:
  assumes ok: "storage_ok c strg"
    and dk: "distinct (map sc_Key (bc_StateChanges (cd_BlockCommit cdata)))"
    and cm: "Commit io c strg cdata = Returns (None, strg', cdata')"
  shows "storage_ok c strg' \<and>
     (\<forall>sc \<in> set (bc_StateChanges (cd_BlockCommit cdata)).
        db_merkleIndex (db strg') (sc_Key sc) \<noteq> None \<and>
        db_state (db strg') (sc_Key sc) = Some (sc_Value sc))"
proof (cases "bc_StateChanges (cd_BlockCommit cdata) = []")
  case True
  from Commit_no_changes [OF True cm] have w: "writeCommitData io strg cdata = Returns (None, strg')" .
  from writeCommitData_success(1,2) [OF w] True
  have "config strg' = config strg" "db_state (db strg') = db_state (db strg)"
    "db_merkleIndex (db strg') = db_merkleIndex (db strg)"
    "db_merkle (db strg') = db_merkle (db strg)" by simp_all
  with ok have "storage_ok c strg'" by (simp add: storage_ok_def merkleTree_def getState_def)
  with True show ?thesis by simp
next
  case False
  let ?d = "db strg" and ?m = "db_merkle (db strg)" and ?T = "merkleTree c strg"
  let ?H = "sha3_256 c"
  let ?changes = "bc_StateChanges (cd_BlockCommit cdata)"
  let ?scs1 = "loadPrevTreeIndexes ?d (loadPrevValues ?d ?changes)"
  define n where "n = leafCount ?m"
  obtain scs n' where sn: "setNewTreeIndexes ?scs1 n = (scs, n')"
    by (cases "setNewTreeIndexes ?scs1 n")
  define leaves where "leaves = computeUpdatedTreeNodes c scs"
  define upd where "upd = Tree_Update ?T ?m leaves n'"
  from ok have com: "committed ?T ?m"
    and s2: "\<And>k idx. db_merkleIndex ?d k = Some idx \<Longrightarrow> be_value idx < n \<and>
        nodes ?m (0, be_value idx) = Some (?H (getState ?d k))"
    and s3: "\<And>k k' a b. db_merkleIndex ?d k = Some a \<Longrightarrow> db_merkleIndex ?d k' = Some b \<Longrightarrow>
        be_value a = be_value b \<Longrightarrow> k = k'"
    unfolding storage_ok_def n_def by blast+
  have b2: "2 \<le> bf ?T" unfolding merkleTree_def by (rule bf_NewTree)
  have keys1: "map sc_Key ?scs1 = map sc_Key ?changes" and vals1: "map sc_Value ?scs1 = map sc_Value ?changes"
    by (simp_all add: loadPrevTreeIndexes_def loadPrevValues_def o_def)
  have prev1: "\<forall>sc \<in> set ?scs1. sc_PrevTreeIndex sc = db_merkleIndex ?d (sc_Key sc)"
    by (auto simp: loadPrevTreeIndexes_def loadPrevValues_def getMerkleIndex_def)
  from setNewTreeIndexes_props [OF sn]
  have keys: "map sc_Key scs = map sc_Key ?changes" and vals: "map sc_Value scs = map sc_Value ?changes"
    and nn: "n \<le> n'"
    and old: "\<forall>sc \<in> set scs. \<not> isNew sc \<longrightarrow> sc_TreeIndex sc = sc_PrevTreeIndex sc"
    and new: "map treeIndexOf (filter isNew scs) = [n ..< n']"
    using keys1 vals1 by simp_all
  from setNewTreeIndexes_same [OF sn] prev1
  have prev: "\<forall>sc \<in> set scs. sc_PrevTreeIndex sc = db_merkleIndex ?d (sc_Key sc)"
    by (metis)
  have dks: "distinct (map sc_Key scs)" using dk by (simp only: keys)
  have kv: "(\<lambda>sc. (sc_Key sc, sc_Value sc)) ` set scs = (\<lambda>sc. (sc_Key sc, sc_Value sc)) ` set ?changes"
  proof -
    have "set (map (\<lambda>sc. (sc_Key sc, sc_Value sc)) scs) =
        set (map (\<lambda>sc. (sc_Key sc, sc_Value sc)) ?changes)"
      by (simp only: map_pair_cong [OF keys vals])
    then show ?thesis by (simp only: set_map)
  qed
  have ne: "scs \<noteq> []" using False keys by (metis map_is_Nil_conv)
  have newr: "n \<le> treeIndexOf sc \<and> treeIndexOf sc < n' \<and> db_merkleIndex ?d (sc_Key sc) = None"
    if "sc \<in> set scs" "isNew sc" for sc
  proof -
    from that have "treeIndexOf sc \<in> set (map treeIndexOf (filter isNew scs))" by simp
    then have "treeIndexOf sc \<in> set [n ..< n']" by (simp only: new)
    moreover have "db_merkleIndex ?d (sc_Key sc) = None"
      using that prev by (auto simp: isNew_def)
    ultimately show ?thesis by simp
  qed
  have oldr: "treeIndexOf sc < n \<and> db_merkleIndex ?d (sc_Key sc) = Some (indexBytes sc) \<and>
      nodes ?m (0, treeIndexOf sc) = Some (?H (getState ?d (sc_Key sc)))"
    if "sc \<in> set scs" "\<not> isNew sc" for sc
  proof -
    from that old prev have ti: "sc_TreeIndex sc = db_merkleIndex ?d (sc_Key sc)" by simp
    from that(2) prev that(1) obtain i where i: "db_merkleIndex ?d (sc_Key sc) = Some i"
      by (auto simp: isNew_def)
    with ti have "indexBytes sc = i" "treeIndexOf sc = be_value i"
      by (simp_all add: indexBytes_def treeIndexOf_def)
    with s2 [OF i] i show ?thesis by simp
  qed
  have bound: "treeIndexOf sc < n'" if "sc \<in> set scs" for sc
    using newr [OF that] oldr [OF that] nn by (cases "isNew sc") auto
  have inj: "inj_on treeIndexOf (set scs)"
  proof (rule inj_onI)
    fix x y assume x: "x \<in> set scs" and y: "y \<in> set scs" and e: "treeIndexOf x = treeIndexOf y"
    have ik: "inj_on sc_Key (set scs)" using dks by (simp add: distinct_map)
    show "x = y"
    proof (cases "isNew x")
      case True
      then have ny: "isNew y" using newr [OF x True] oldr [OF y] e by (cases "isNew y") auto
      have "distinct (map treeIndexOf (filter isNew scs))" by (simp only: new distinct_upt)
      then have "inj_on treeIndexOf (set (filter isNew scs))" by (simp add: distinct_map)
      then show ?thesis using x y True ny e by (auto dest: inj_onD)
    next
      case False
      then have ny: "\<not> isNew y" using newr [OF y] oldr [OF x False] e by (cases "isNew y") auto
      from oldr [OF x False] oldr [OF y ny]
      have "db_merkleIndex ?d (sc_Key x) = Some (indexBytes x)"
        "db_merkleIndex ?d (sc_Key y) = Some (indexBytes y)" by simp_all
      moreover have "be_value (indexBytes x) = be_value (indexBytes y)"
        using e by (simp add: treeIndexOf_def indexBytes_def)
      ultimately have "sc_Key x = sc_Key y" by (rule s3)
      with ik x y show ?thesis by (auto dest: inj_onD)
    qed
  qed
  have dti: "distinct (map treeIndexOf scs)"
    using inj dks by (simp add: distinct_map)
  have lr: "leafRow leaves = map (\<lambda>sc. (treeIndexOf sc, ?H (sc_Value sc))) scs"
    by (simp add: leaves_def leafRow_def computeUpdatedTreeNodes_def NewPosition_def
        sumStateValue_def o_def)
  have vu: "valid_update ?m leaves n'"
  proof -
    have "\<forall>i \<in> set [n ..< n']. i \<in> (\<lambda>x. snd (Position x)) ` set leaves"
    proof
      fix i assume "i \<in> set [n ..< n']"
      then have "i \<in> set (map treeIndexOf (filter isNew scs))" by (simp only: new)
      then obtain sc where "sc \<in> set scs" "treeIndexOf sc = i" by auto
      then show "i \<in> (\<lambda>x. snd (Position x)) ` set leaves"
        by (force simp: leaves_def computeUpdatedTreeNodes_def NewPosition_def)
    qed
    then show ?thesis
      using ne nn bound
      by (auto simp: valid_update_def list_all_iff leaves_def computeUpdatedTreeNodes_def
          NewPosition_def n_def)
  qed
  from Tree_Update_root [of leaves ?T ?m n'] ne b2 obtain root where
    root: "Root upd = Some root"
    by (auto simp: upd_def leaves_def computeUpdatedTreeNodes_def)
  have cmu: "computeMerkleUpdate c strg cdata =
      Returns (cdata\<lparr>cd_merkleUpdate := Some upd,
                     cd_BlockCommit := (cd_BlockCommit cdata)
                       \<lparr>bc_StateChanges := scs, bc_LeafCount := big_Bytes (LeafCount upd),
                        bc_MerkleRoot := Data root\<rparr>\<rparr>)"
    using sn root
    by (simp add: computeMerkleUpdate_def Let_def n_def [symmetric] leaves_def [symmetric]
        upd_def [symmetric])
  from Commit_changes [OF False cmu cm] have w: "writeCommitData io strg
      (cdata\<lparr>cd_merkleUpdate := Some upd,
             cd_BlockCommit := (cd_BlockCommit cdata)
               \<lparr>bc_StateChanges := scs, bc_LeafCount := big_Bytes (LeafCount upd),
                bc_MerkleRoot := Data root\<rparr>\<rparr>) = Returns (None, strg')" .
  from writeCommitData_success(1,3) [OF w] ne
  have cfg: "config strg' = config strg"
    and st': "db_state (db strg') = foldl (\<lambda>m sc. m(sc_Key sc \<mapsto> sc_Value sc)) (db_state ?d) scs"
    and ix': "db_merkleIndex (db strg') =
        foldl (\<lambda>m sc. m(sc_Key sc \<mapsto> indexBytes sc)) (db_merkleIndex ?d) scs"
    and mk': "db_merkle (db strg') = CommitUpdate upd ?m"
    by simp_all
  have T': "merkleTree c strg' = ?T" by (simp add: merkleTree_def cfg)
  note nac = nodes_after_commit [OF b2 vu]
  have lc': "leafCount (db_merkle (db strg')) = n'" by (simp add: mk' upd_def nac(3))
  have leaf': "nodes (db_merkle (db strg')) (0, i) =
      (case lookup_last (leafRow leaves) i of Some d \<Rightarrow> Some d | None \<Rightarrow> nodes ?m (0, i))" for i
    using nac(1) [of 0 i] by (simp add: mk' upd_def)
  have in_st: "db_state (db strg') (sc_Key sc) = Some (sc_Value sc)"
    and in_ix: "db_merkleIndex (db strg') (sc_Key sc) = Some (indexBytes sc)"
    if "sc \<in> set scs" for sc
    using that dks by (simp_all add: st' ix' foldl_map_upd_in)
  have in_leaf: "nodes (db_merkle (db strg')) (0, treeIndexOf sc) = Some (?H (sc_Value sc))"
    if "sc \<in> set scs" for sc
    using lookup_last_pairs_in [OF dti that, of "\<lambda>sc. ?H (sc_Value sc)"]
    by (simp add: leaf' lr)
  have out_st: "db_state (db strg') k = db_state ?d k"
    and out_ix: "db_merkleIndex (db strg') k = db_merkleIndex ?d k"
    if "k \<notin> sc_Key ` set scs" for k
    using that by (simp_all add: st' ix' foldl_map_upd_out)
  have out_leaf: "nodes (db_merkle (db strg')) (0, be_value idx) = nodes ?m (0, be_value idx)"
    if k: "k \<notin> sc_Key ` set scs" and i: "db_merkleIndex ?d k = Some idx" for k idx
  proof -
    have "be_value idx \<notin> treeIndexOf ` set scs"
    proof
      assume "be_value idx \<in> treeIndexOf ` set scs"
      then obtain sc where sc: "sc \<in> set scs" and e: "treeIndexOf sc = be_value idx" by auto
      show False
      proof (cases "isNew sc")
        case True
        with newr [OF sc True] s2 [OF i] e show False by simp
      next
        case False
        from oldr [OF sc False] have o: "db_merkleIndex ?d (sc_Key sc) = Some (indexBytes sc)" by simp
        have "be_value (indexBytes sc) = be_value idx"
          using e by (simp add: treeIndexOf_def indexBytes_def)
        with o i have "sc_Key sc = k" by (rule s3)
        with sc k show False by auto
      qed
    qed
    from lookup_last_pairs_out [OF this, of "\<lambda>sc. ?H (sc_Value sc)"]
    show ?thesis by (simp add: leaf' lr)
  qed
  have ti: "be_value (indexBytes sc) = treeIndexOf sc" for sc
    by (simp add: treeIndexOf_def indexBytes_def)
  have A: "committed (merkleTree c strg') (db_merkle (db strg'))"
    unfolding T' mk' upd_def by (rule committed_update [OF com vu])
  have B: "be_value idx < leafCount (db_merkle (db strg')) \<and>
        nodes (db_merkle (db strg')) (0, be_value idx) = Some (?H (getState (db strg') k))"
    if i: "db_merkleIndex (db strg') k = Some idx" for k idx
  proof (cases "k \<in> sc_Key ` set scs")
    case True
    then obtain sc where sc: "sc \<in> set scs" and k: "k = sc_Key sc" by auto
    from in_ix [OF sc] i have "idx = indexBytes sc" by (simp add: k)
    then show ?thesis
      using bound [OF sc] in_leaf [OF sc] in_st [OF sc] by (simp add: lc' ti getState_def k)
  next
    case False
    from out_ix [OF False] i have i0: "db_merkleIndex ?d k = Some idx" by simp
    from s2 [OF i0] nn out_leaf [OF False i0] out_st [OF False] show ?thesis
      by (simp add: lc' getState_def)
  qed
  have C: "k = k'"
    if a: "db_merkleIndex (db strg') k = Some a" and b: "db_merkleIndex (db strg') k' = Some b"
      and e: "be_value a = be_value b" for k k' a b
  proof -
    have key: "\<exists>sc \<in> set scs. k = sc_Key sc \<and> be_value a = treeIndexOf sc"
      if "k \<in> sc_Key ` set scs" "db_merkleIndex (db strg') k = Some a" for k a
    proof -
      from that(1) obtain sc where sc: "sc \<in> set scs" and k: "k = sc_Key sc" by auto
      from in_ix [OF sc] that(2) have "a = indexBytes sc" by (simp add: k)
      with sc k show ?thesis by (auto simp: ti)
    qed
    have cross: False
      if "k1 \<in> sc_Key ` set scs" "db_merkleIndex (db strg') k1 = Some a1"
        "k2 \<notin> sc_Key ` set scs" "db_merkleIndex (db strg') k2 = Some a2"
        "be_value a1 = be_value a2" for k1 k2 a1 a2
    proof -
      from key [OF that(1,2)] obtain sc where sc: "sc \<in> set scs" and k: "k1 = sc_Key sc"
        and t: "be_value a1 = treeIndexOf sc" by auto
      from out_ix [OF that(3)] that(4) have i2: "db_merkleIndex ?d k2 = Some a2" by simp
      show False
      proof (cases "isNew sc")
        case True
        with newr [OF sc True] s2 [OF i2] t that(5) show False by simp
      next
        case False
        from oldr [OF sc False] have o: "db_merkleIndex ?d (sc_Key sc) = Some (indexBytes sc)" by simp
        have "be_value (indexBytes sc) = be_value a2" using t that(5) by (simp add: ti)
        with o i2 have "sc_Key sc = k2" by (rule s3)
        with sc that(3) show False by auto
      qed
    qed
    show ?thesis
    proof (cases "k \<in> sc_Key ` set scs")
      case True
      show ?thesis
      proof (cases "k' \<in> sc_Key ` set scs")
        case True
        from key [OF \<open>k \<in> sc_Key ` set scs\<close> a] key [OF True b] e inj show ?thesis
          by (auto dest: inj_onD)
      next
        case False
        with cross [OF True a False b e] show ?thesis by simp
      qed
    next
      case False
      show ?thesis
      proof (cases "k' \<in> sc_Key ` set scs")
        case True
        with cross [OF True b False a] e show ?thesis by simp
      next
        case k'out: False
        from out_ix [OF False] a have a0: "db_merkleIndex ?d k = Some a" by simp
        from out_ix [OF k'out] b have b0: "db_merkleIndex ?d k' = Some b" by simp
        from a0 b0 e show ?thesis by (rule s3)
      qed
    qed
  qed
  have ok': "storage_ok c strg'"
    unfolding storage_ok_def using A B C by blast
  have fin: "db_merkleIndex (db strg') (sc_Key sc0) \<noteq> None \<and>
        db_state (db strg') (sc_Key sc0) = Some (sc_Value sc0)"
    if "sc0 \<in> set ?changes" for sc0
  proof -
    from that have "(sc_Key sc0, sc_Value sc0) \<in> (\<lambda>sc. (sc_Key sc, sc_Value sc)) ` set ?changes" by auto
    then have "(sc_Key sc0, sc_Value sc0) \<in> (\<lambda>sc. (sc_Key sc, sc_Value sc)) ` set scs" by (simp only: kv)
    then obtain sc where sc: "sc \<in> set scs" and "sc_Key sc = sc_Key sc0" "sc_Value sc = sc_Value sc0"
      by auto
    with in_st [OF sc] in_ix [OF sc] show ?thesis by simp
  qed
  from ok' fin show ?thesis by blast
qed

lemma storage_ok_New: "storage_ok c (New toy_db cfg)"
  unfolding storage_ok_def merkleTree_def
  by (simp add: New_def toy_db_def committed_empty)

lemma Commit_succeeds:
  assumes io: "\<forall>n. \<not> io n"
  shows "\<exists>strg' cdata'. Commit io c strg cdata = Returns (None, strg', cdata')"
proof (cases "bc_StateChanges (cd_BlockCommit cdata) = []")
  case True
  from writeCommitData_cases [of cdata io strg] True io
  obtain err strg' where "writeCommitData io strg cdata = Returns (err, strg')" "err = None"
    by (auto simp: Let_def)
  with True show ?thesis by (simp add: Commit_def commit_def)
next
  case False
  from computeMerkleUpdate_returns [OF False, of c strg]
  obtain cd1 upd where c1: "computeMerkleUpdate c strg cdata = Returns cd1"
    and u: "cd_merkleUpdate cd1 = Some upd" and ne: "bc_StateChanges (cd_BlockCommit cd1) \<noteq> []"
    by blast
  from writeCommitData_cases [of cd1 io strg] u ne io
  obtain err strg' where "writeCommitData io strg cd1 = Returns (err, strg')" "err = None"
    by (auto simp: Let_def)
  with False c1 show ?thesis by (simp add: Commit_def commit_def)
qed

lemma VerifyState_ok:
  assumes ok: "storage_ok c strg" and i: "db_merkleIndex (db strg) key = Some idx"
  shows "VerifyState c strg key = Inr (getState (db strg) key)"
proof -
  from ok i have com: "committed (merkleTree c strg) (db_merkle (db strg))"
    and b: "be_value idx < leafCount (db_merkle (db strg))"
    and n: "nodes (db_merkle (db strg)) (0, be_value idx) =
        Some (sha3_256 c (getState (db strg) key))"
    unfolding storage_ok_def by blast+
  have "Tree_Verify (merkleTree c strg) (db_merkle (db strg))
      [\<lparr>Position = (0, be_value idx), Data = sha3_256 c (getState (db strg) key)\<rparr>]"
    using b n by (intro Verify_committed_leaves committed_tree_inv [OF com]) simp_all
  with i show ?thesis by (simp add: VerifyState_eq getMerkleIndex_def)
qed

lemma Commit_then_VerifyState:
  assumes ok: "storage_ok c strg"
    and dk: "distinct (map sc_Key (bc_StateChanges (cd_BlockCommit cdata)))"
    and cm: "Commit io c strg cdata = Returns (None, strg', cdata')"
    and sc: "sc \<in> set (bc_StateChanges (cd_BlockCommit cdata))"
  shows "VerifyState c strg' (sc_Key sc) = Inr (sc_Value sc)"
proof -
  from Commit_success [OF ok dk cm] sc
  have ok': "storage_ok c strg'"
    and i: "db_merkleIndex (db strg') (sc_Key sc) \<noteq> None"
    and v: "db_state (db strg') (sc_Key sc) = Some (sc_Value sc)"
    by blast+
  from i obtain idx where "db_merkleIndex (db strg') (sc_Key sc) = Some idx" by auto
  from VerifyState_ok [OF ok' this] v show ?thesis by (simp add: getState_def)
qed

lemma VerifyState_tampered:
  assumes ok: "storage_ok c strg" and i: "db_merkleIndex (db strg) key = Some idx"
    and inj: "inj (sha3_256 c)" and ne: "v' \<noteq> getState (db strg) key"
  shows "VerifyState c (strg\<lparr>db := (db strg)\<lparr>db_state := (db_state (db strg))(key \<mapsto> v')\<rparr>\<rparr>) key
     = Inl MerkleVerifyFailed"
proof -
  let ?strg' = "strg\<lparr>db := (db strg)\<lparr>db_state := (db_state (db strg))(key \<mapsto> v')\<rparr>\<rparr>"
  from ok i have com: "committed (merkleTree c strg) (db_merkle (db strg))"
    and b: "be_value idx < leafCount (db_merkle (db strg))"
    and n: "nodes (db_merkle (db strg)) (0, be_value idx) =
        Some (sha3_256 c (getState (db strg) key))"
    unfolding storage_ok_def by blast+
  have h: "inj (hashFunc (merkleTree c strg))" using inj by (simp add: merkleTree_def NewTree_def)
  have d: "sha3_256 c v' \<noteq> sha3_256 c (getState (db strg) key)"
    using inj ne by (auto dest: injD)
  have "\<not> Tree_Verify (merkleTree c strg) (db_merkle (db strg))
      [\<lparr>Position = (0, be_value idx), Data = sha3_256 c v'\<rparr>]"
    by (rule Verify_altered_leaf [OF committed_tree_inv [OF com] h b n d])
  with i show ?thesis
    by (simp add: VerifyState_eq getMerkleIndex_def getState_def merkleTree_def)
qed

end
